theory Spec2Isabelle
  imports Main "HOL-Library.AList"
begin

section \<open>Values of a props bag (molecule.ts, AtomValue)\<close>

text \<open>
  A promise is modelled at the point where it has settled: \<open>Promise s rej res pv\<close> is a
  promise that settles as \<open>s\<close> and carries the three augmented properties of the global
  \<^verbatim>\<open>Promise\<close> interface, \<^verbatim>\<open>rejected\<close>, \<^verbatim>\<open>resolved\<close> and \<^verbatim>\<open>previousValue\<close>
  (\<open>Undefined\<close> when the property is not set). Operations that never settle are outside
  the model: every \<^verbatim>\<open>await\<close> returns.
\<close>

datatype 'a settle = Fulfilled 'a | Rejected 'a

datatype val =
    Undefined
  | Null
  | Boolean bool
  | Number int
  | Str string
  | Obj string
  | Error string
  | Promise "val settle" bool bool val

text \<open>\<^verbatim>\<open>a instanceof Error\<close> and \<^verbatim>\<open>a instanceof Promise\<close>.\<close>

fun isError :: "val \<Rightarrow> bool" where
  "isError (Error e) = True"
| "isError _ = False"

fun isPromise :: "val \<Rightarrow> bool" where
  "isPromise (Promise s rej res pv) = True"
| "isPromise _ = False"

text \<open>JavaScript truthiness, as used by \<^verbatim>\<open>&&\<close>, \<^verbatim>\<open>!\<close> and \<^verbatim>\<open>if\<close>.\<close>

fun truthy :: "val \<Rightarrow> bool" where
  "truthy Undefined = False"
| "truthy Null = False"
| "truthy (Boolean b) = b"
| "truthy (Number n) = (n \<noteq> 0)"
| "truthy (Str s) = (s \<noteq> [])"
| "truthy (Obj s) = True"
| "truthy (Error e) = True"
| "truthy (Promise s rej res pv) = True"

fun previousValue :: "val \<Rightarrow> val" where
  "previousValue (Promise s rej res pv) = pv"
| "previousValue _ = Undefined"

subsection \<open>The helper queries (molecule.ts, lines 130-176)\<close>

fun isPending :: "val \<Rightarrow> bool" where
  "isPending (Promise s rej res pv) = (\<not> rej \<and> \<not> res)"
| "isPending _ = False"

fun isRejected :: "val \<Rightarrow> bool" where
  "isRejected (Error e) = True"
| "isRejected (Promise s rej res pv) = rej"
| "isRejected _ = False"

text \<open>
  \<^verbatim>\<open>isPending(a) && a.previousValue\<close>: the result is \<^verbatim>\<open>false\<close> or the previous value
  itself, so the function returns a value and its callers test it for truthiness.
\<close>

definition isRefreshing :: "val \<Rightarrow> val" where
  "isRefreshing a = (if isPending a then previousValue a else Boolean False)"

definition isResolved :: "val \<Rightarrow> bool" where
  "isResolved a =
     (if a = Undefined then False
      else if isRejected a \<or> (isPending a \<and> \<not> truthy (isRefreshing a)) then False
      else True)"

definition resolvedValue :: "val \<Rightarrow> val" where
  "resolvedValue a =
     (if truthy (isRefreshing a) then previousValue a
      else if isPending a \<or> isRejected a then Undefined
      else a)"

section \<open>Props bags, atoms and molecules\<close>

text \<open>
  A props bag is a JavaScript object: an association list in insertion order.
  \<open>AList.update\<close> is the assignment \<^verbatim>\<open>obj[key] = v\<close> (in place when the key is there,
  appended otherwise); \<open>lookup\<close> is the read \<^verbatim>\<open>obj[key]\<close>, \<^verbatim>\<open>undefined\<close> for a
  missing key.
\<close>

type_synonym props = "(string \<times> val) list"

text \<open>
  An atom is an opaque asynchronous operation: the model applies it to the bag it is
  called with and gets the way its promise settles. An atom that throws before it
  returns its promise is outside the model, and an atom whose answer changes with time
  is not told apart from one that depends on its bag alone; no proof below compares the
  answers of two calls.
\<close>

type_synonym atom = "props \<Rightarrow> val settle"
type_synonym group = "(string \<times> atom) list"
type_synonym molecule = "group list"

definition lookup :: "props \<Rightarrow> string \<Rightarrow> val" where
  "lookup p key = (case map_of p key of None \<Rightarrow> Undefined | Some v \<Rightarrow> v)"

text \<open>\<^verbatim>\<open>Object.assign(target, source)\<close> and the object spreads built from it.\<close>

definition assign :: "props \<Rightarrow> props \<Rightarrow> props" where
  "assign target source = fold (\<lambda>(k, v) acc. AList.update k v acc) source target"

text \<open>\<^verbatim>\<open>{ ...a, ...b }\<close>\<close>

definition spread :: "props \<Rightarrow> props \<Rightarrow> props" where
  "spread a b = assign (assign [] a) b"

text \<open>\<^verbatim>\<open>{ ...a }\<close>\<close>

definition copy :: "props \<Rightarrow> props" where
  "copy a = assign [] a"

text \<open>\<^verbatim>\<open>await p.catch((e) => e)\<close> on a promise: its value, or the reason it rejects with.\<close>

fun awaitCatch :: "val \<Rightarrow> val" where
  "awaitCatch (Promise (Fulfilled v) rej res pv) = v"
| "awaitCatch (Promise (Rejected e) rej res pv) = e"
| "awaitCatch v = v"

text \<open>\<^verbatim>\<open>await p\<close>: the value, or the rejection thrown (\<open>Inl\<close>).\<close>

fun await :: "val \<Rightarrow> val + val" where
  "await (Promise (Fulfilled v) rej res pv) = Inr v"
| "await (Promise (Rejected e) rej res pv) = Inl e"
| "await v = Inr v"

section \<open>executeGroup (molecule.ts, lines 216-249)\<close>

text \<open>
  The first loop runs over the entries \<^verbatim>\<open>Object.entries(props)\<close> taken at its start and
  assigns into \<open>props\<close>. The \<^verbatim>\<open>await prop\<close> of line 232 has no handler: a rejection
  there is thrown out of \<^verbatim>\<open>executeGroup\<close>.
\<close>

fun convertLoop :: "(string \<times> val) list \<Rightarrow> props \<Rightarrow> val + props" where
  "convertLoop [] props = Inr props"
| "convertLoop ((key, prop) # entries) props =
     (if isRejected prop then
        convertLoop entries
          (AList.update key (if isError prop then prop else awaitCatch prop) props)
      else if isResolved prop then
        (if isPromise prop then
           (case await prop of
              Inl e \<Rightarrow> Inl e
            | Inr v \<Rightarrow> convertLoop entries (AList.update key v props))
         else convertLoop entries (AList.update key prop props))
      else convertLoop entries props)"

text \<open>
  \<^verbatim>\<open>augmentPromise(p)\<close> returns \<^verbatim>\<open>p.then(...).catch(...)\<close>, a new promise that settles as
  \<open>p\<close> does. The handlers set \<^verbatim>\<open>resolved\<close> and \<^verbatim>\<open>rejected\<close> on \<open>p\<close>, not on the promise
  returned, so the promise stored in the bag never has either property.
\<close>

definition augmentPromise :: "val settle \<Rightarrow> val" where
  "augmentPromise s = Promise s False False Undefined"

fun setPreviousValue :: "val \<Rightarrow> val \<Rightarrow> val" where
  "setPreviousValue (Promise s rej res pv) v = Promise s rej res v"
| "setPreviousValue a v = a"

text \<open>
  The second loop calls the atoms. Beside the bag it returns the calls it made, each
  with the bag the atom received: the record by which the theorems speak of an atom
  being invoked.
\<close>

type_synonym call = "string \<times> props"

fun callLoop :: "group \<Rightarrow> props \<Rightarrow> call list \<Rightarrow> props \<times> call list" where
  "callLoop [] props calls = (props, calls)"
| "callLoop ((key, atom) # atoms) props calls =
     (if truthy (lookup props key) \<and> isError (lookup props key) then
        callLoop atoms props calls
      else
        (let promise = augmentPromise (atom props);
             promise' = (if isResolved (lookup props key)
                         then setPreviousValue promise (lookup props key)
                         else promise)
         in callLoop atoms (AList.update key promise' props) (calls @ [(key, props)])))"

definition executeGroup :: "group \<Rightarrow> props \<Rightarrow> val + (props \<times> call list)" where
  "executeGroup atoms previousProps =
     (let props = copy previousProps in
      case convertLoop props props of
        Inl e \<Rightarrow> Inl e
      | Inr props' \<Rightarrow> Inr (callLoop atoms props' []))"

section \<open>reaction (molecule.ts, lines 91-121)\<close>

text \<open>What \<^verbatim>\<open>generator.next(x)\<close> resolves to, or throws.\<close>

datatype 'a iter = Yield 'a | Done | Throw val

text \<open>
  The generator is suspended at one of its three \<^verbatim>\<open>yield\<close>s: line 94 (\<open>AtTop\<close>), line
  100 inside group \<open>i\<close> with the bag \<open>newProps\<close> (\<open>AtInFlight\<close>), line 114 inside group
  \<open>i\<close> with the flag \<open>hasErrors\<close> (\<open>AtSettled\<close>).
\<close>

datatype rpos = RNotStarted | AtTop | AtInFlight nat props | AtSettled nat bool | RDone

text \<open>
  \<open>invoked\<close> is the history of atom calls of the whole session, each with the index of
  its group; it is not a variable of the source.
\<close>

record rstate =
  r_props :: props
  r_nextProps :: props
  r_pos :: rpos
  invoked :: "(nat \<times> call) list"

definition reaction :: "(nat \<times> call) list \<Rightarrow> rstate" where
  "reaction history = \<lparr>r_props = [], r_nextProps = [], r_pos = RNotStarted, invoked = history\<rparr>"

definition mergedProps :: "rstate \<Rightarrow> props" where
  "mergedProps s = spread (r_nextProps s) (r_props s)"

text \<open>Lines 96-100: the body of the \<^verbatim>\<open>for\<close> loop up to its first \<^verbatim>\<open>yield\<close>.\<close>

definition dispatch :: "molecule \<Rightarrow> nat \<Rightarrow> rstate \<Rightarrow> props iter \<times> rstate" where
  "dispatch molecule i s =
     (case executeGroup (molecule ! i) (mergedProps s) of
        Inl e \<Rightarrow> (Throw e, s\<lparr>r_pos := RDone\<rparr>)
      | Inr (newProps, calls) \<Rightarrow>
          (Yield newProps,
           s\<lparr>r_pos := AtInFlight i newProps,
             invoked := invoked s @ map (\<lambda>c. (i, c)) calls\<rparr>))"

text \<open>Lines 102-112: settle every promise of the bag.\<close>

fun settleLoop :: "(string \<times> val) list \<Rightarrow> props \<Rightarrow> bool \<Rightarrow> props \<times> bool" where
  "settleLoop [] props hasErrors = (props, hasErrors)"
| "settleLoop ((key, prop) # entries) props hasErrors =
     (let v = (if isPromise prop then awaitCatch prop else prop)
      in settleLoop entries (AList.update key v props) (if isError v then True else hasErrors))"

definition reaction_next :: "molecule \<Rightarrow> rstate \<Rightarrow> props \<Rightarrow> props iter \<times> rstate" where
  "reaction_next molecule s x =
     (case r_pos s of
        RNotStarted \<Rightarrow> (Yield [], s\<lparr>r_props := [], r_pos := AtTop\<rparr>)
      | AtTop \<Rightarrow>
          (let s' = s\<lparr>r_nextProps := x\<rparr> in
           if molecule = [] then (Yield (r_props s'), s'\<lparr>r_pos := AtTop\<rparr>)
           else dispatch molecule 0 s')
      | AtInFlight i newProps \<Rightarrow>
          (let props = copy newProps;
               (props', hasErrors) = settleLoop props props False
           in (Yield props', s\<lparr>r_props := props', r_pos := AtSettled i hasErrors\<rparr>))
      | AtSettled i hasErrors \<Rightarrow>
          (if hasErrors \<or> length molecule \<le> Suc i
           then (Yield (r_props s), s\<lparr>r_pos := AtTop\<rparr>)
           else dispatch molecule (Suc i) s)
      | RDone \<Rightarrow> (Done, s))"

section \<open>catalyze (catalyze.ts)\<close>

datatype ChainReactionState = executing | invalidating | error | finished

text \<open>
  The caller's inputs: the identity of the object passed to \<^verbatim>\<open>next\<close> and its
  entries. \<^verbatim>\<open>shouldAbort\<close> compares identities only.
\<close>

type_synonym input = "nat \<times> props"
type_synonym observation = "ChainReactionState \<times> props"

definition shouldAbort :: "input \<Rightarrow> input \<Rightarrow> bool" where
  "shouldAbort prev nxt = (fst prev \<noteq> fst nxt)"

definition hasErrors :: "props \<Rightarrow> nat" where
  "hasErrors bag = length (filter isError (map snd bag))"

text \<open>
  The generator is suspended at line 35 (\<open>AtStart\<close>), at line 47 (\<open>AtPromises i\<close>), at
  line 56 (\<open>AtError i\<close>) or at line 63 (\<open>AtResolved i\<close>), \<open>i\<close> being
  \<^verbatim>\<open>atomGroupNumber\<close>.
\<close>

datatype cpos = CNotStarted | AtStart | AtPromises nat | AtError nat | AtResolved nat | CDone

record cstate =
  generator :: rstate
  c_props :: props
  state :: ChainReactionState
  externalProps :: input
  c_pos :: cpos

text \<open>
  \<^verbatim>\<open>startReaction\<close>: a new \<^verbatim>\<open>reaction\<close>, advanced to its first \<^verbatim>\<open>yield\<close>; the last
  generator is disposed of. The history of calls is handed on.
\<close>

definition startReaction :: "molecule \<Rightarrow> rstate option \<Rightarrow> rstate" where
  "startReaction chemicals lastGenerator =
     (let history = (case lastGenerator of None \<Rightarrow> [] | Some g \<Rightarrow> invoked g)
      in snd (reaction_next chemicals (reaction history) []))"

text \<open>
  The generator object before its first \<^verbatim>\<open>next\<close>. The first value of
  \<^verbatim>\<open>externalProps\<close> is an object of the generator's own (identity \<open>0\<close> here); line 35
  overwrites it before it is ever compared.
\<close>

definition catalyze :: "molecule \<Rightarrow> cstate" where
  "catalyze chemicals =
     \<lparr>generator = reaction [], c_props = [], state = executing,
      externalProps = (0, []), c_pos = CNotStarted\<rparr>"

text \<open>Lines 69-77 after the \<^verbatim>\<open>for\<close> loop, then the \<^verbatim>\<open>yield\<close> of line 35.\<close>

definition afterLoop :: "molecule \<Rightarrow> cstate \<Rightarrow> observation iter \<times> cstate" where
  "afterLoop chemicals c =
     (let c1 = (if state c = finished then c\<lparr>state := executing\<rparr> else c);
          c2 = (if state c1 = invalidating
                then c1\<lparr>generator := startReaction chemicals (Some (generator c1)),
                        state := executing\<rparr>
                else c1)
      in (Yield (state c2, c_props c2), c2\<lparr>c_pos := AtStart\<rparr>))"

text \<open>
  Lines 42-47. A generator that is done returns \<^verbatim>\<open>undefined\<close> as its value, which
  \<^verbatim>\<open>catalyze\<close> would yield as its bag before \<^verbatim>\<open>hasErrors\<close> throws a TypeError on it at
  the next advance; the model ends \<^verbatim>\<open>catalyze\<close> with that error at once. The case does
  not arise: the live generator is done only after it has thrown, and then
  \<^verbatim>\<open>catalyze\<close> is done as well (lemma \<open>catalyze_next_live\<close>).
\<close>

definition promisePhase :: "molecule \<Rightarrow> nat \<Rightarrow> cstate \<Rightarrow> observation iter \<times> cstate" where
  "promisePhase chemicals i c =
     (case reaction_next chemicals (generator c) (spread (c_props c) (snd (externalProps c))) of
        (Yield v, g) \<Rightarrow> (Yield (state c, v), c\<lparr>generator := g, c_props := v, c_pos := AtPromises i\<rparr>)
      | (Throw e, g) \<Rightarrow> (Throw e, c\<lparr>generator := g, c_pos := CDone\<rparr>)
      | (Done, g) \<Rightarrow> (Throw (Error ''TypeError''), c\<lparr>generator := g, c_pos := CDone\<rparr>))"

text \<open>Lines 52-63.\<close>

definition resolvedPhase :: "molecule \<Rightarrow> nat \<Rightarrow> cstate \<Rightarrow> observation iter \<times> cstate" where
  "resolvedPhase chemicals i c =
     (case reaction_next chemicals (generator c) (c_props c) of
        (Yield v, g) \<Rightarrow>
          (let c1 = c\<lparr>generator := g, c_props := v\<rparr> in
           if hasErrors v \<noteq> 0 then
             (Yield (error, v), c1\<lparr>state := error, c_pos := AtError i\<rparr>)
           else
             (let c2 = (if i = length chemicals - 1 then c1\<lparr>state := finished\<rparr> else c1)
              in (Yield (state c2, v), c2\<lparr>c_pos := AtResolved i\<rparr>)))
      | (Throw e, g) \<Rightarrow> (Throw e, c\<lparr>generator := g, c_pos := CDone\<rparr>)
      | (Done, g) \<Rightarrow> (Throw (Error ''TypeError''), c\<lparr>generator := g, c_pos := CDone\<rparr>))"

definition catalyze_next :: "molecule \<Rightarrow> cstate \<Rightarrow> input \<Rightarrow> observation iter \<times> cstate" where
  "catalyze_next chemicals c x =
     (case c_pos c of
        CNotStarted \<Rightarrow>
          (let c' = \<lparr>generator = startReaction chemicals None, c_props = [],
                     state = executing, externalProps = (0, []), c_pos = AtStart\<rparr>
           in (Yield (state c', c_props c'), c'))
      | AtStart \<Rightarrow>
          (let c' = c\<lparr>externalProps := x\<rparr> in
           if 0 < length chemicals then promisePhase chemicals 0 c'
           else afterLoop chemicals c')
      | AtPromises i \<Rightarrow>
          (if shouldAbort (externalProps c) x
           then afterLoop chemicals (c\<lparr>state := invalidating\<rparr>)
           else resolvedPhase chemicals i c)
      | AtError i \<Rightarrow> afterLoop chemicals c
      | AtResolved i \<Rightarrow>
          (if shouldAbort (externalProps c) x
           then afterLoop chemicals (c\<lparr>c_props := [], state := invalidating\<rparr>)
           else if Suc i < length chemicals then promisePhase chemicals (Suc i) c
           else afterLoop chemicals c)
      | CDone \<Rightarrow> (Done, c))"

text \<open>A caller that advances a generator with a list of inputs and collects what it gets.\<close>

fun reaction_run :: "molecule \<Rightarrow> rstate \<Rightarrow> props list \<Rightarrow> props iter list \<times> rstate" where
  "reaction_run molecule s [] = ([], s)"
| "reaction_run molecule s (x # xs) =
     (let (r, s') = reaction_next molecule s x;
          (rs, s'') = reaction_run molecule s' xs
      in (r # rs, s''))"

fun catalyze_run :: "molecule \<Rightarrow> cstate \<Rightarrow> input list \<Rightarrow> observation iter list \<times> cstate" where
  "catalyze_run chemicals c [] = ([], c)"
| "catalyze_run chemicals c (x # xs) =
     (let (r, c') = catalyze_next chemicals c x;
          (rs, c'') = catalyze_run chemicals c' xs
      in (r # rs, c''))"

section \<open>useResources (useResources.ts): the loop that drives catalyze\<close>

text \<open>
  The asynchronous function \<^verbatim>\<open>iterate\<close> (lines 61-95) is suspended at one of its three
  \<^verbatim>\<open>await\<close>s or is about to begin a round of its loop: \<open>LoopTop\<close> (line 63),
  \<open>Discarding sent\<close> (the call of line 73 is pending, made with \<open>sent\<close>), \<open>Pulling sent\<close>
  (the call of line 77 is pending), \<open>Waiting withTimeout\<close> (line 87 or line 90, on the
  promise of \<^verbatim>\<open>getWaitPromise(withTimeout)\<close>), \<open>Returned\<close>. The molecule stays the same
  and the component stays mounted.
\<close>

datatype hpos = LoopTop | Discarding input | Pulling input | Waiting bool | Returned

text \<open>\<open>emitted\<close> lists the calls of \<^verbatim>\<open>setProps\<close>, the observations handed to the component.\<close>

record hook =
  h_generator :: cstate
  useDeps :: input
  invalidateDeps :: bool
  emitted :: "observation list"
  h_pos :: hpos

text \<open>
  What can happen to the loop: the effect of lines 44-52 runs because the identity of
  \<^verbatim>\<open>deps\<close> has changed, the timer armed by the pending wait fires, or the pending
  \<^verbatim>\<open>await\<close> completes and the loop runs on to its next one.
\<close>

datatype event = DepsChanged input | TimerFired | Resume

text \<open>
  The hook after its effects have run on mount: the effect of line 44 has set
  \<^verbatim>\<open>invalidateDeps\<close>, the effect of line 53 has created the generator and started it.
\<close>

definition useResources :: "molecule \<Rightarrow> input \<Rightarrow> hook" where
  "useResources chemical deps =
     \<lparr>h_generator = snd (catalyze_next chemical (catalyze chemical) deps),
      useDeps = deps, invalidateDeps = True, emitted = [], h_pos = LoopTop\<rparr>"

text \<open>Line 73 completes: the value is thrown away, line 77 makes the next call.\<close>

definition discarded :: "molecule \<Rightarrow> input \<Rightarrow> hook \<Rightarrow> hook" where
  "discarded chemical sent h =
     (case catalyze_next chemical (h_generator h) sent of
        (Throw e, g) \<Rightarrow> h\<lparr>h_generator := g, h_pos := Returned\<rparr>
      | (r, g) \<Rightarrow> h\<lparr>h_generator := g, h_pos := Pulling (useDeps h)\<rparr>)"

text \<open>Line 77 completes; lines 78-93.\<close>

definition pulled :: "molecule \<Rightarrow> input \<Rightarrow> hook \<Rightarrow> hook" where
  "pulled chemical sent h =
     (case catalyze_next chemical (h_generator h) sent of
        (Yield nextProps, g) \<Rightarrow>
          h\<lparr>h_generator := g, emitted := emitted h @ [nextProps],
            h_pos := (if fst nextProps = finished then Waiting True
                      else if fst nextProps = error then Waiting False
                      else LoopTop)\<rparr>
      | (r, g) \<Rightarrow> h\<lparr>h_generator := g, h_pos := Returned\<rparr>)"

text \<open>
  \<^verbatim>\<open>abortWait.current()\<close> resolves the promise the loop waits on, if it waits; a timer is
  armed only by \<^verbatim>\<open>getWaitPromise(true)\<close>, and the timer of an earlier wait resolves the
  promise of that wait only.
\<close>

fun hook_step :: "molecule \<Rightarrow> hook \<Rightarrow> event \<Rightarrow> hook" where
  "hook_step chemical h (DepsChanged deps) =
     (let h' = h\<lparr>invalidateDeps := True, useDeps := deps\<rparr> in
      case h_pos h of Waiting withTimeout \<Rightarrow> h'\<lparr>h_pos := LoopTop\<rparr> | _ \<Rightarrow> h')"
| "hook_step chemical h TimerFired =
     (if h_pos h = Waiting True then h\<lparr>h_pos := LoopTop\<rparr> else h)"
| "hook_step chemical h Resume =
     (case h_pos h of
        LoopTop \<Rightarrow>
          (if invalidateDeps h
           then h\<lparr>invalidateDeps := False, h_pos := Discarding (useDeps h)\<rparr>
           else h\<lparr>h_pos := Pulling (useDeps h)\<rparr>)
      | Discarding sent \<Rightarrow> discarded chemical sent h
      | Pulling sent \<Rightarrow> pulled chemical sent h
      | Waiting withTimeout \<Rightarrow> h
      | Returned \<Rightarrow> h)"

definition hook_run :: "molecule \<Rightarrow> hook \<Rightarrow> event list \<Rightarrow> hook" where
  "hook_run chemical h evs = fold (\<lambda>ev h. hook_step chemical h ev) evs h"

fun isDepsChanged :: "event \<Rightarrow> bool" where
  "isDepsChanged (DepsChanged deps) = True"
| "isDepsChanged _ = False"

section \<open>Auxiliary notions for the proofs\<close>

text \<open>What one round of the loop of lines 103-112 of molecule.ts does to a single value.\<close>

definition settleValue :: "val \<Rightarrow> val" where
  "settleValue v = (if isPromise v then awaitCatch v else v)"

text \<open>
  The bag a suspended \<^verbatim>\<open>reaction\<close> has last yielded: \<open>newProps\<close> at line 100, \<open>props\<close> at
  lines 94 and 114.
\<close>

definition bag :: "rstate \<Rightarrow> props" where
  "bag s = (case r_pos s of AtInFlight i newProps \<Rightarrow> newProps | _ \<Rightarrow> r_props s)"

text \<open>A value that is neither an error nor a promise, and a bag of such values.\<close>

definition settledValue :: "val \<Rightarrow> bool" where
  "settledValue v = (\<not> isError v \<and> \<not> isPromise v)"

definition settledBag :: "props \<Rightarrow> bool" where
  "settledBag p = list_all (\<lambda>(k, v). settledValue v) p"

text \<open>An atom whose operation never fails, and a molecule of such atoms.\<close>

definition succeeds :: "atom \<Rightarrow> bool" where
  "succeeds at = (\<forall>p. \<exists>v. at p = Fulfilled v \<and> settledValue v)"

definition succeeding :: "molecule \<Rightarrow> bool" where
  "succeeding m = (\<forall>g \<in> set m. \<forall>(k, at) \<in> set g. succeeds at)"

text \<open>A settled value, or a promise of \<^verbatim>\<open>executeGroup\<close> that fulfils with one.\<close>

definition inFlightValue :: "val \<Rightarrow> bool" where
  "inFlightValue v =
     (settledValue v \<or> (\<exists>w pv. v = Promise (Fulfilled w) False False pv \<and> settledValue w))"

definition statusOf :: "observation iter \<Rightarrow> ChainReactionState option" where
  "statusOf r = (case r of Yield (st, b) \<Rightarrow> Some st | _ \<Rightarrow> None)"

text \<open>
  \<^verbatim>\<open>catalyze\<close> is about to dispatch stage \<open>i\<close> of a pass in which nothing has failed, the
  pass having begun with inputs of identity \<open>ref\<close>.
\<close>

definition ready :: "molecule \<Rightarrow> nat \<Rightarrow> nat \<Rightarrow> cstate \<Rightarrow> bool" where
  "ready m ref i c =
     (i < length m \<and> state c = executing \<and> settledBag (c_props c)
      \<and> settledBag (r_props (generator c)) \<and> distinct (map fst (r_props (generator c)))
      \<and> (case i of
            0 \<Rightarrow> c_pos c = AtStart \<and> r_pos (generator c) = AtTop
          | Suc j \<Rightarrow> c_pos c = AtResolved j \<and> r_pos (generator c) = AtSettled j False
                     \<and> fst (externalProps c) = ref \<and> settledBag (r_nextProps (generator c))))"

text \<open>A \<^verbatim>\<open>reaction\<close> generator that has been started and has not thrown.\<close>

definition live :: "rstate \<Rightarrow> bool" where
  "live g = (r_pos g \<noteq> RNotStarted \<and> r_pos g \<noteq> RDone)"

section \<open>Example molecules\<close>

text \<open>\<^verbatim>\<open>[{a: () => "x"}]\<close>\<close>

definition scenarioA :: molecule where
  "scenarioA = [[(''a'', \<lambda>props. Fulfilled (Str ''x''))]]"

text \<open>\<^verbatim>\<open>[{a: fails("boom")}, {b: () => "y"}]\<close>\<close>

definition scenarioB :: molecule where
  "scenarioB = [[(''a'', \<lambda>props. Rejected (Error ''boom''))],
                [(''b'', \<lambda>props. Fulfilled (Str ''y''))]]"

text \<open>\<^verbatim>\<open>[{a: () => "x"}, {b: (props) => props.a ? "y" : undefined}]\<close>\<close>

definition scenarioC :: molecule where
  "scenarioC = [[(''a'', \<lambda>props. Fulfilled (Str ''x''))],
                [(''b'', \<lambda>props. if truthy (lookup props ''a'') then Fulfilled (Str ''y'')
                                  else Fulfilled Undefined)]]"

text \<open>\<^verbatim>\<open>[{a: fails("boom"), c: () => "z"}, {b: () => "y"}]\<close>\<close>

definition partialFailure :: molecule where
  "partialFailure = [[(''a'', \<lambda>props. Rejected (Error ''boom'')),
                      (''c'', \<lambda>props. Fulfilled (Str ''z''))],
                     [(''b'', \<lambda>props. Fulfilled (Str ''y''))]]"


text \<open>\<^verbatim>\<open>[{a: () => "x"}, {b: (props) => props.a}]\<close>\<close>

definition sharedKey :: molecule where
  "sharedKey = [[(''a'', \<lambda>props. Fulfilled (Str ''x''))],
                [(''b'', \<lambda>props. Fulfilled (lookup props ''a''))]]"

text \<open>The molecule of the test "should restart from the beginning" of catalyze.test.ts.\<close>

definition restartTest :: molecule where
  "restartTest = [[(''first'', \<lambda>props. Fulfilled (Str ''first''))]]"

text \<open>States of the examples, each reached by the run that defines it.\<close>

definition inFlightB :: rstate where
  "inFlightB = snd (reaction_run scenarioB (reaction []) [[], [(''k'', Number 1)]])"

definition settledPartial :: rstate where
  "settledPartial = snd (reaction_run partialFailure (reaction []) [[], [], []])"


definition startedA :: cstate where
  "startedA = snd (catalyze_next scenarioA (catalyze scenarioA) (0, []))"

definition midStageA :: cstate where
  "midStageA = snd (catalyze_run scenarioA (catalyze scenarioA) [(0, []), (1, [(''k'', Number 1)])])"

definition startedShared :: cstate where
  "startedShared = snd (catalyze_next sharedKey (catalyze sharedKey) (0, []))"

definition resolvedShared :: cstate where
  "resolvedShared =
     snd (catalyze_run sharedKey (catalyze sharedKey)
            (replicate 3 (1, [(''a'', Str ''ext''), (''k'', Number 1)])))"

definition pullingB :: hook where
  "pullingB = hook_run scenarioB (useResources scenarioB (1, [(''k'', Number 1)])) [Resume, Resume]"

section \<open>Lemmas on bags\<close>

lemma update_in_place:
  "k \<notin> fst ` set pre \<Longrightarrow> AList.update k v (pre @ (k, w) # es) = pre @ (k, v) # es"
  by (induction pre) auto

lemma update_fresh:
  "k \<notin> fst ` set pre \<Longrightarrow> AList.update k v pre = pre @ [(k, v)]"
  by (induction pre) auto

lemma distinct_assign:
  "distinct (map fst t) \<Longrightarrow> distinct (map fst (assign t s))"
  unfolding assign_def
  by (induction s arbitrary: t) (auto simp: distinct_update)

lemma map_of_assign_notin:
  "k \<notin> fst ` set s \<Longrightarrow> map_of (assign t s) k = map_of t k"
  unfolding assign_def
  by (induction s arbitrary: t) (auto simp: update_conv')

lemma map_of_assign_in:
  "distinct (map fst s) \<Longrightarrow> map_of s k = Some v \<Longrightarrow> map_of (assign t s) k = Some v"
  unfolding assign_def
proof (induction s arbitrary: t)
  case Nil then show ?case by simp
next
  case (Cons a s)
  obtain k' v' where a: "a = (k', v')" by (cases a)
  show ?case
  proof (cases "k' = k")
    case True
    with Cons.prems a have "v' = v" "k \<notin> fst ` set s" by auto
    then show ?thesis using a True map_of_assign_notin[of k s "AList.update k v t"]
      by (simp add: assign_def update_conv')
  next
    case False
    then show ?thesis using Cons a by auto
  qed
qed

lemma assign_append:
  "distinct (map fst (pre @ s)) \<Longrightarrow> assign pre s = pre @ s"
  unfolding assign_def
proof (induction s arbitrary: pre)
  case Nil then show ?case by simp
next
  case (Cons a s)
  obtain k v where a: "a = (k, v)" by (cases a)
  have "k \<notin> fst ` set pre" using Cons.prems a by auto
  then have "AList.update k v pre = pre @ [(k, v)]" by (rule update_fresh)
  moreover have "distinct (map fst ((pre @ [(k, v)]) @ s))" using Cons.prems a by auto
  ultimately show ?case using Cons.IH[of "pre @ [(k, v)]"] a by simp
qed

lemma copy_distinct: "distinct (map fst p) \<Longrightarrow> copy p = p"
  using assign_append[of "[]" p] by (simp add: copy_def)

lemma distinct_copy: "distinct (map fst (copy p))"
  by (simp add: copy_def distinct_assign)

lemma distinct_spread: "distinct (map fst (spread a b))"
  by (simp add: spread_def distinct_assign)

lemma settleLoop_append:
  "distinct (map fst (pre @ es)) \<Longrightarrow>
   settleLoop es (pre @ es) h =
     (pre @ map (\<lambda>(k, v). (k, settleValue v)) es, h \<or> (\<exists>(k, v) \<in> set es. isError (settleValue v)))"
proof (induction es arbitrary: pre h)
  case Nil then show ?case by simp
next
  case (Cons a es)
  obtain k v where a: "a = (k, v)" by (cases a)
  have nin: "k \<notin> fst ` set pre" using Cons.prems a by auto
  have d: "distinct (map fst ((pre @ [(k, settleValue v)]) @ es))" using Cons.prems a by auto
  show ?case
    using Cons.IH[OF d] a update_in_place[OF nin, of "settleValue v" v es]
    by (auto simp: settleValue_def Let_def)
qed

lemma settleLoop_distinct:
  "distinct (map fst p) \<Longrightarrow>
   settleLoop p p False =
     (map (\<lambda>(k, v). (k, settleValue v)) p, \<exists>(k, v) \<in> set p. isError (settleValue v))"
  using settleLoop_append[of "[]" p False] by simp

section \<open>Lemmas on the loops of executeGroup\<close>

lemma distinct_convertLoop:
  "convertLoop es p = Inr p' \<Longrightarrow> distinct (map fst p) \<Longrightarrow> distinct (map fst p')"
proof (induction es arbitrary: p)
  case Nil then show ?case by simp
next
  case (Cons a es)
  obtain k v where a: "a = (k, v)" by (cases a)
  show ?case using Cons.prems Cons.IH a
    by (auto simp: distinct_update split: if_splits sum.splits)
qed



lemma distinct_callLoop:
  "callLoop g p calls = (p', calls') \<Longrightarrow> distinct (map fst p) \<Longrightarrow> distinct (map fst p')"
proof (induction g arbitrary: p calls)
  case Nil then show ?case by simp
next
  case (Cons a g)
  obtain k at where a: "a = (k, at)" by (cases a)
  show ?case using Cons.prems a Cons.IH
    by (auto simp: Let_def distinct_update split: if_splits)
qed

lemma callLoop_keeps_error:
  "callLoop g p calls = (p', calls') \<Longrightarrow> map_of p key = Some (Error e) \<Longrightarrow>
   map_of p' key = Some (Error e) \<and> filter (\<lambda>c. fst c = key) calls' = filter (\<lambda>c. fst c = key) calls"
proof (induction g arbitrary: p calls)
  case Nil then show ?case by simp
next
  case (Cons a g)
  obtain k at where a: "a = (k, at)" by (cases a)
  show ?case
  proof (cases "k = key")
    case True
    then have "truthy (lookup p k) \<and> isError (lookup p k)"
      using Cons.prems(2) by (simp add: lookup_def)
    then have "callLoop g p calls = (p', calls')" using Cons.prems(1) a by simp
    then show ?thesis using Cons.IH Cons.prems(2) by blast
  next
    case False
    then have upd: "\<And>w. map_of (AList.update k w p) key = Some (Error e)"
      using Cons.prems(2) by (simp add: update_conv')
    show ?thesis using Cons.prems(1) a False Cons.IH[OF _ upd] Cons.IH[OF _ Cons.prems(2)]
      by (auto simp: Let_def split: if_splits)
  qed
qed


lemma isRejected_settled: "isRejected v \<Longrightarrow> \<not> isPromise v \<Longrightarrow> isError v"
  by (cases v) auto

lemma convertLoop_keeps_settled:
  "convertLoop es p = Inr p' \<Longrightarrow> map_of p k = Some w \<Longrightarrow> \<not> isPromise w \<Longrightarrow>
   (\<forall>v. (k, v) \<in> set es \<longrightarrow> v = w) \<Longrightarrow> map_of p' k = Some w"
proof (induction es arbitrary: p)
  case Nil then show ?case by simp
next
  case (Cons a es)
  obtain k' v where a: "a = (k', v)" by (cases a)
  have rest: "\<forall>v. (k, v) \<in> set es \<longrightarrow> v = w" using Cons.prems(4) by auto
  have same: "k' = k \<Longrightarrow> v = w" using Cons.prems(4) a by auto
  have upd: "\<And>u. (k' = k \<longrightarrow> u = w) \<Longrightarrow> map_of (AList.update k' u p) k = Some w"
    using Cons.prems(2) by (auto simp: update_conv')
  have "\<exists>u. (k' = k \<longrightarrow> u = w) \<and> convertLoop es (AList.update k' u p) = Inr p'
        \<or> convertLoop es p = Inr p'"
    using Cons.prems(1,3) a same isRejected_settled[of v]
    by (cases "k' = k") (auto split: if_splits sum.splits)
  then show ?case using Cons.IH[OF _ _ Cons.prems(3) rest] upd Cons.prems(2) by blast
qed

section \<open>Lemmas on reaction: errors are kept\<close>

lemma executeGroup_distinct:
  "executeGroup g prev = Inr (np, calls) \<Longrightarrow> distinct (map fst np)"
  unfolding executeGroup_def
  by (auto simp: Let_def split: sum.splits
      dest!: distinct_convertLoop[OF _ distinct_copy] distinct_callLoop)

lemma executeGroup_keeps_error:
  assumes "executeGroup g prev = Inr (np, calls)"
      and "distinct (map fst prev)" and "map_of prev key = Some (Error e)"
  shows "map_of np key = Some (Error e) \<and> filter (\<lambda>c. fst c = key) calls = []"
proof -
  have cp: "copy prev = prev" using assms(2) by (rule copy_distinct)
  from assms(1) obtain p' where conv: "convertLoop prev prev = Inr p'"
    and call: "callLoop g p' [] = (np, calls)"
    by (auto simp: executeGroup_def cp Let_def split: sum.splits)
  have "\<forall>v. (key, v) \<in> set prev \<longrightarrow> v = Error e"
    using assms(2,3) by (metis map_of_is_SomeI option.inject)
  from convertLoop_keeps_settled[OF conv assms(3) _ this]
  have "map_of p' key = Some (Error e)" by simp
  from callLoop_keeps_error[OF call this] show ?thesis by simp
qed

lemma mergedProps_distinct: "distinct (map fst (mergedProps s))"
  by (simp add: mergedProps_def distinct_spread)

lemma dispatch_keeps_error:
  assumes "dispatch molecule i s = (r, s')"
      and "distinct (map fst (r_props s))" and "map_of (r_props s) key = Some (Error e)"
  shows "(\<forall>b. r = Yield b \<longrightarrow> map_of b key = Some (Error e))
       \<and> distinct (map fst (bag s')) \<and> map_of (bag s') key = Some (Error e)
       \<and> filter (\<lambda>c. fst (snd c) = key) (invoked s') = filter (\<lambda>c. fst (snd c) = key) (invoked s)
       \<and> r \<noteq> Done"
proof -
  have m: "map_of (mergedProps s) key = Some (Error e)"
    unfolding mergedProps_def spread_def using assms(2,3) by (rule map_of_assign_in)
  show ?thesis
  proof (cases "executeGroup (molecule ! i) (mergedProps s)")
    case (Inl err)
    then show ?thesis using assms by (auto simp: dispatch_def bag_def)
  next
    case (Inr res)
    obtain np calls where res: "res = (np, calls)" by (cases res)
    from executeGroup_keeps_error[OF Inr[unfolded res] mergedProps_distinct m]
         executeGroup_distinct[OF Inr[unfolded res]]
    show ?thesis using assms(1) Inr res
      by (auto simp: dispatch_def bag_def filter_map comp_def filter_empty_conv)
  qed
qed

lemma map_of_settled:
  "map_of (map (\<lambda>(k, v). (k, settleValue v)) p) key = map_option settleValue (map_of p key)"
  by (induction p) auto

lemma reaction_next_keeps_error:
  assumes "reaction_next molecule s x = (r, s')"
      and "r_pos s \<noteq> RNotStarted"
      and "distinct (map fst (bag s))" and "map_of (bag s) key = Some (Error e)"
  shows "(\<forall>b. r = Yield b \<longrightarrow> map_of b key = Some (Error e))
       \<and> r_pos s' \<noteq> RNotStarted
       \<and> distinct (map fst (bag s')) \<and> map_of (bag s') key = Some (Error e)
       \<and> filter (\<lambda>c. fst (snd c) = key) (invoked s') = filter (\<lambda>c. fst (snd c) = key) (invoked s)"
proof (cases "r_pos s")
  case RNotStarted
  then show ?thesis using assms(2) by simp
next
  case AtTop
  let ?s = "s\<lparr>r_nextProps := x\<rparr>"
  have b: "bag s = r_props s" using AtTop by (simp add: bag_def)
  show ?thesis
  proof (cases "molecule = []")
    case True
    then show ?thesis using assms AtTop b by (auto simp: reaction_next_def bag_def)
  next
    case False
    then have d: "dispatch molecule 0 ?s = (r, s')"
      using assms(1) AtTop by (simp add: reaction_next_def)
    have pos: "r_pos s' \<noteq> RNotStarted"
      using d by (auto simp: dispatch_def split: sum.splits)
    from dispatch_keeps_error[OF d] assms(3,4) b pos show ?thesis by simp
  qed
next
  case (AtInFlight i newProps)
  have b: "bag s = newProps" using AtInFlight by (simp add: bag_def)
  have cp: "copy newProps = newProps" using assms(3) b by (simp add: copy_distinct)
  have st: "settleLoop newProps newProps False =
      (map (\<lambda>(k, v). (k, settleValue v)) newProps, \<exists>(k, v) \<in> set newProps. isError (settleValue v))"
    using assms(3) b by (simp add: settleLoop_distinct)
  have "map_of (map (\<lambda>(k, v). (k, settleValue v)) newProps) key = Some (Error e)"
    using assms(4) b by (simp add: map_of_settled) (simp add: settleValue_def)
  moreover have "distinct (map fst (map (\<lambda>(k, v). (k, settleValue v)) newProps))"
    using assms(3) b by (simp add: comp_def case_prod_unfold)
  ultimately show ?thesis using assms(1) AtInFlight cp st
    by (auto simp: reaction_next_def bag_def)
next
  case (AtSettled i hasErrors)
  have b: "bag s = r_props s" using AtSettled by (simp add: bag_def)
  show ?thesis
  proof (cases "hasErrors \<or> length molecule \<le> Suc i")
    case True
    then show ?thesis using assms AtSettled b by (auto simp: reaction_next_def bag_def)
  next
    case False
    then have d: "dispatch molecule (Suc i) s = (r, s')"
      using assms(1) AtSettled by (simp add: reaction_next_def)
    have pos: "r_pos s' \<noteq> RNotStarted"
      using d by (auto simp: dispatch_def split: sum.splits)
    from dispatch_keeps_error[OF d] assms(3,4) b pos show ?thesis by simp
  qed
next
  case RDone
  then show ?thesis using assms by (auto simp: reaction_next_def bag_def)
qed

section \<open>Lemmas on reaction: calls and snapshots\<close>

lemma callLoop_received:
  "callLoop g p calls = (p', calls') \<Longrightarrow> key \<notin> fst ` set g \<Longrightarrow> map_of p key = Some w \<Longrightarrow>
   (\<forall>c \<in> set calls. map_of (snd c) key = Some w) \<Longrightarrow>
   (\<forall>c \<in> set calls'. map_of (snd c) key = Some w)"
proof (induction g arbitrary: p calls)
  case Nil then show ?case by simp
next
  case (Cons a g)
  obtain k at where a: "a = (k, at)" by (cases a)
  have ne: "k \<noteq> key" and nin: "key \<notin> fst ` set g" using Cons.prems(2) a by auto
  have upd: "\<And>u. map_of (AList.update k u p) key = Some w"
    using Cons.prems(3) ne by (simp add: update_conv')
  have ext: "\<forall>c \<in> set (calls @ [(k, p)]). map_of (snd c) key = Some w"
    using Cons.prems(3,4) by auto
  have "callLoop g p calls = (p', calls')
        \<or> (\<exists>u. callLoop g (AList.update k u p) (calls @ [(k, p)]) = (p', calls'))"
    using Cons.prems(1) a by (auto simp: Let_def split: if_splits)
  then show ?case
    using Cons.IH[OF _ nin Cons.prems(3) Cons.prems(4)] Cons.IH[OF _ nin upd ext] by blast
qed

lemma reaction_next_settle:
  assumes "r_pos s = AtInFlight i newProps"
  shows "reaction_next molecule s x =
           (Yield (map (\<lambda>(k, v). (k, settleValue v)) (copy newProps)),
            s\<lparr>r_props := map (\<lambda>(k, v). (k, settleValue v)) (copy newProps),
              r_pos := AtSettled i (\<exists>(k, v) \<in> set (copy newProps). isError (settleValue v))\<rparr>)"
  using assms settleLoop_distinct[OF distinct_copy, of newProps]
  by (simp add: reaction_next_def Let_def)

lemma dispatch_Yield:
  assumes "dispatch molecule i s = (Yield np, s')"
  shows "\<exists>calls. executeGroup (molecule ! i) (mergedProps s) = Inr (np, calls)
       \<and> s' = s\<lparr>r_pos := AtInFlight i np, invoked := invoked s @ map (\<lambda>c. (i, c)) calls\<rparr>"
proof (cases "executeGroup (molecule ! i) (mergedProps s)")
  case (Inl e)
  then show ?thesis using assms by (simp add: dispatch_def)
next
  case (Inr res)
  obtain a b where "res = (a, b)" by (cases res)
  then show ?thesis using assms Inr by (auto simp: dispatch_def)
qed



section \<open>Lemmas on a pass in which nothing fails\<close>

lemma list_all_update:
  "list_all P al \<Longrightarrow> P (k, v) \<Longrightarrow> list_all P (AList.update k v al)"
  by (induction al) auto

lemma list_all_assign:
  "list_all P t \<Longrightarrow> list_all P s \<Longrightarrow> list_all P (assign t s)"
  unfolding assign_def
  by (induction s arbitrary: t) (auto simp: list_all_update)

lemma settledBag_spread: "settledBag a \<Longrightarrow> settledBag b \<Longrightarrow> settledBag (spread a b)"
  by (simp add: settledBag_def spread_def list_all_assign)

lemma convertLoop_settled:
  "(\<forall>(k, v) \<in> set es. settledValue v \<and> map_of p k = Some v) \<Longrightarrow> convertLoop es p = Inr p"
proof (induction es)
  case Nil then show ?case by simp
next
  case (Cons a es)
  obtain k v where a: "a = (k, v)" by (cases a)
  have sv: "settledValue v" and mp: "map_of p k = Some v" using Cons.prems a by auto
  have nr: "\<not> isRejected v" using sv isRejected_settled[of v] by (auto simp: settledValue_def)
  have np: "\<not> isPromise v" using sv by (simp add: settledValue_def)
  have triv: "AList.update k v p = p" using mp by (rule update_triv)
  show ?case using Cons a nr np triv by auto
qed

lemma convertLoop_settledBag:
  assumes "settledBag p" and "distinct (map fst p)"
  shows "convertLoop p p = Inr p"
proof -
  have "\<forall>(k, v) \<in> set p. settledValue v \<and> map_of p k = Some v"
    using assms by (auto simp: settledBag_def list_all_iff)
  then show ?thesis by (rule convertLoop_settled)
qed

lemma callLoop_inFlight:
  "callLoop g p calls = (p', calls') \<Longrightarrow> (\<forall>(k, at) \<in> set g. succeeds at) \<Longrightarrow>
   list_all (\<lambda>(k, v). inFlightValue v) p \<Longrightarrow> list_all (\<lambda>(k, v). inFlightValue v) p'"
proof (induction g arbitrary: p calls)
  case Nil then show ?case by simp
next
  case (Cons a g)
  obtain k at where a: "a = (k, at)" by (cases a)
  have rest: "\<forall>(k, at) \<in> set g. succeeds at" using Cons.prems(2) by auto
  from Cons.prems(2) a have "succeeds at" by auto
  then obtain w where w: "at p = Fulfilled w" "settledValue w" by (auto simp: succeeds_def)
  have fl: "\<And>pv. inFlightValue (Promise (Fulfilled w) False False pv)"
    using w(2) by (simp add: inFlightValue_def)
  have "callLoop g p calls = (p', calls')
        \<or> (\<exists>pv. callLoop g (AList.update k (Promise (Fulfilled w) False False pv) p) (calls @ [(k, p)]) = (p', calls'))"
    using Cons.prems(1) a w(1) by (auto simp: Let_def augmentPromise_def split: if_splits)
  then show ?case
  proof
    assume "callLoop g p calls = (p', calls')"
    from Cons.IH[OF this rest Cons.prems(3)] show ?thesis .
  next
    assume "\<exists>pv. callLoop g (AList.update k (Promise (Fulfilled w) False False pv) p) (calls @ [(k, p)]) = (p', calls')"
    then obtain pv where run: "callLoop g (AList.update k (Promise (Fulfilled w) False False pv) p) (calls @ [(k, p)]) = (p', calls')" ..
    have "list_all (\<lambda>(k, v). inFlightValue v) (AList.update k (Promise (Fulfilled w) False False pv) p)"
      using Cons.prems(3) fl by (simp add: list_all_update)
    from Cons.IH[OF run rest this] show ?thesis .
  qed
qed

lemma settledBag_inFlight: "settledBag p \<Longrightarrow> list_all (\<lambda>(k, v). inFlightValue v) p"
  by (auto simp: settledBag_def inFlightValue_def list_all_iff)

lemma executeGroup_succeeds:
  assumes "settledBag prev" and "distinct (map fst prev)" and "\<forall>(k, at) \<in> set g. succeeds at"
  shows "\<exists>np calls. executeGroup g prev = Inr (np, calls)
       \<and> distinct (map fst np) \<and> list_all (\<lambda>(k, v). inFlightValue v) np"
proof -
  obtain np calls where call: "callLoop g prev [] = (np, calls)" by (cases "callLoop g prev []")
  have ex: "executeGroup g prev = Inr (np, calls)"
    using assms(1,2) call by (simp add: executeGroup_def copy_distinct convertLoop_settledBag)
  from callLoop_inFlight[OF call assms(3) settledBag_inFlight[OF assms(1)]]
       executeGroup_distinct[OF ex] ex
  show ?thesis by blast
qed

lemma settle_inFlight: "inFlightValue v \<Longrightarrow> settledValue (settleValue v)"
  by (auto simp: inFlightValue_def settleValue_def settledValue_def)

lemma settled_of_inFlight:
  assumes "list_all (\<lambda>(k, v). inFlightValue v) np"
  shows "settledBag (map (\<lambda>(k, v). (k, settleValue v)) np)"
    and "\<not> (\<exists>(k, v) \<in> set np. isError (settleValue v))"
  using assms settle_inFlight
  by (auto simp: settledBag_def list_all_iff settledValue_def)

lemma hasErrors_settledBag: "settledBag p \<Longrightarrow> hasErrors p = 0"
  by (auto simp: hasErrors_def settledBag_def list_all_iff settledValue_def filter_empty_conv)

lemma dispatch_succeeds:
  assumes "settledBag (mergedProps s)" and "i < length m" and "succeeding m"
  shows "\<exists>np calls. dispatch m i s =
            (Yield np, s\<lparr>r_pos := AtInFlight i np, invoked := invoked s @ map (\<lambda>c. (i, c)) calls\<rparr>)
       \<and> distinct (map fst np) \<and> list_all (\<lambda>(k, v). inFlightValue v) np"
proof -
  have "\<forall>(k, at) \<in> set (m ! i). succeeds at"
    using assms(2,3) by (auto simp: succeeding_def)
  from executeGroup_succeeds[OF assms(1) mergedProps_distinct this]
  obtain np calls where "executeGroup (m ! i) (mergedProps s) = Inr (np, calls)"
    "distinct (map fst np)" "list_all (\<lambda>(k, v). inFlightValue v) np" by blast
  then show ?thesis by (auto simp: dispatch_def)
qed

lemma settle_succeeds:
  assumes "r_pos s = AtInFlight i np" and "distinct (map fst np)"
      and "list_all (\<lambda>(k, v). inFlightValue v) np"
  shows "\<exists>b. reaction_next m s x = (Yield b, s\<lparr>r_props := b, r_pos := AtSettled i False\<rparr>)
       \<and> settledBag b \<and> distinct (map fst b)"
proof -
  let ?b = "map (\<lambda>(k, v). (k, settleValue v)) np"
  have "reaction_next m s x = (Yield ?b, s\<lparr>r_props := ?b, r_pos := AtSettled i False\<rparr>)"
    using reaction_next_settle[OF assms(1), of m x] settled_of_inFlight(2)[OF assms(3)] assms(2)
    by (simp add: copy_distinct)
  moreover have "distinct (map fst ?b)" using assms(2) by (simp add: comp_def case_prod_unfold)
  ultimately show ?thesis using settled_of_inFlight(1)[OF assms(3)] by blast
qed

lemma promisePhase_succeeds:
  assumes "ready m (fst x) i c" and "succeeding m" and "settledBag (snd x)"
  shows "\<exists>np g1. catalyze_next m c x =
            (Yield (executing, np), c\<lparr>externalProps := (if i = 0 then x else externalProps c),
                                      generator := g1, c_props := np, c_pos := AtPromises i\<rparr>)
        \<and> r_pos g1 = AtInFlight i np \<and> distinct (map fst np)
        \<and> list_all (\<lambda>(k, v). inFlightValue v) np \<and> settledBag (r_nextProps g1)"
proof (cases i)
  case 0
  let ?c = "c\<lparr>externalProps := x\<rparr>"
  let ?sent = "spread (c_props c) (snd x)"
  let ?s = "(generator c)\<lparr>r_nextProps := ?sent\<rparr>"
  have r: "c_pos c = AtStart" "r_pos (generator c) = AtTop" "m \<noteq> []" "state c = executing"
    "settledBag (c_props c)" "settledBag (r_props (generator c))"
    using assms(1) 0 by (auto simp: ready_def)
  have sent: "settledBag ?sent" using r(5) assms(3) by (rule settledBag_spread)
  have "settledBag (mergedProps ?s)"
    using sent r(6) by (simp add: mergedProps_def settledBag_spread)
  from dispatch_succeeds[OF this _ assms(2), of 0] r(3)
  obtain np calls where d: "dispatch m 0 ?s =
      (Yield np, ?s\<lparr>r_pos := AtInFlight 0 np, invoked := invoked ?s @ map (\<lambda>c. (0, c)) calls\<rparr>)"
    and np: "distinct (map fst np)" "list_all (\<lambda>(k, v). inFlightValue v) np" by auto
  have rn: "reaction_next m (generator c) ?sent =
      (Yield np, ?s\<lparr>r_pos := AtInFlight 0 np, invoked := invoked ?s @ map (\<lambda>c. (0, c)) calls\<rparr>)"
    using r(2,3) d by (simp add: reaction_next_def)
  have "catalyze_next m c x = promisePhase m 0 ?c"
    using r(1,3) by (simp add: catalyze_next_def)
  also have "\<dots> = (Yield (executing, np),
      ?c\<lparr>generator := ?s\<lparr>r_pos := AtInFlight 0 np, invoked := invoked ?s @ map (\<lambda>c. (0, c)) calls\<rparr>,
         c_props := np, c_pos := AtPromises 0\<rparr>)"
    using rn r(4) by (simp add: promisePhase_def)
  finally show ?thesis using 0 np sent by auto
next
  case (Suc j)
  let ?s = "generator c"
  have r: "c_pos c = AtResolved j" "r_pos ?s = AtSettled j False" "Suc j < length m"
    "state c = executing" "fst (externalProps c) = fst x"
    "settledBag (r_props ?s)" "settledBag (r_nextProps ?s)"
    using assms(1) Suc by (auto simp: ready_def)
  have "settledBag (mergedProps ?s)"
    using r(6,7) by (simp add: mergedProps_def settledBag_spread)
  from dispatch_succeeds[OF this r(3) assms(2)]
  obtain np calls where d: "dispatch m (Suc j) ?s =
      (Yield np, ?s\<lparr>r_pos := AtInFlight (Suc j) np, invoked := invoked ?s @ map (\<lambda>c. (Suc j, c)) calls\<rparr>)"
    and np: "distinct (map fst np)" "list_all (\<lambda>(k, v). inFlightValue v) np" by auto
  have rn: "\<And>y. reaction_next m ?s y =
      (Yield np, ?s\<lparr>r_pos := AtInFlight (Suc j) np, invoked := invoked ?s @ map (\<lambda>c. (Suc j, c)) calls\<rparr>)"
    using r(2,3) d by (simp add: reaction_next_def)
  have "catalyze_next m c x = promisePhase m (Suc j) c"
    using r(1,3,5) by (simp add: catalyze_next_def shouldAbort_def)
  also have "\<dots> = (Yield (executing, np),
      c\<lparr>generator := ?s\<lparr>r_pos := AtInFlight (Suc j) np, invoked := invoked ?s @ map (\<lambda>c. (Suc j, c)) calls\<rparr>,
        c_props := np, c_pos := AtPromises (Suc j)\<rparr>)"
    using rn r(4) by (simp add: promisePhase_def)
  finally show ?thesis using Suc np r(7) by auto
qed

lemma resolvedPhase_succeeds:
  assumes "c_pos c = AtPromises i" and "fst (externalProps c) = fst x"
      and "r_pos (generator c) = AtInFlight i np" and "distinct (map fst np)"
      and "list_all (\<lambda>(k, v). inFlightValue v) np"
  shows "\<exists>b. catalyze_next m c x =
            (Yield (if i = length m - 1 then finished else state c, b),
             c\<lparr>generator := (generator c)\<lparr>r_props := b, r_pos := AtSettled i False\<rparr>,
               c_props := b,
               state := (if i = length m - 1 then finished else state c),
               c_pos := AtResolved i\<rparr>)
        \<and> settledBag b \<and> distinct (map fst b)"
proof -
  from settle_succeeds[OF assms(3,4,5), of m "c_props c"]
  obtain b where rn: "reaction_next m (generator c) (c_props c) =
      (Yield b, (generator c)\<lparr>r_props := b, r_pos := AtSettled i False\<rparr>)"
    and b: "settledBag b" "distinct (map fst b)" by blast
  have "catalyze_next m c x = resolvedPhase m i c"
    using assms(1,2) by (simp add: catalyze_next_def shouldAbort_def)
  also have "\<dots> = (Yield (if i = length m - 1 then finished else state c, b),
             c\<lparr>generator := (generator c)\<lparr>r_props := b, r_pos := AtSettled i False\<rparr>,
               c_props := b,
               state := (if i = length m - 1 then finished else state c),
               c_pos := AtResolved i\<rparr>)"
    using rn hasErrors_settledBag[OF b(1)] by (simp add: resolvedPhase_def Let_def)
  finally show ?thesis using b by blast
qed

lemma stage_pair:
  assumes "ready m (fst x) i c" and "succeeding m" and "settledBag (snd x)"
  shows "\<exists>r1 r2 c2. catalyze_run m c [x, x] = ([r1, r2], c2)
       \<and> statusOf r1 = Some executing
       \<and> statusOf r2 = Some (if Suc i = length m then finished else executing)
       \<and> (Suc i < length m \<longrightarrow> ready m (fst x) (Suc i) c2)"
proof -
  from promisePhase_succeeds[OF assms]
  obtain np g1 where s1: "catalyze_next m c x =
            (Yield (executing, np), c\<lparr>externalProps := (if i = 0 then x else externalProps c),
                                      generator := g1, c_props := np, c_pos := AtPromises i\<rparr>)"
    and g1: "r_pos g1 = AtInFlight i np" "distinct (map fst np)"
        "list_all (\<lambda>(k, v). inFlightValue v) np" "settledBag (r_nextProps g1)" by blast
  let ?c1 = "c\<lparr>externalProps := (if i = 0 then x else externalProps c),
                generator := g1, c_props := np, c_pos := AtPromises i\<rparr>"
  have ext: "fst (externalProps ?c1) = fst x"
    using assms(1) by (cases i) (auto simp: ready_def)
  have st: "state ?c1 = executing" and il: "i < length m" using assms(1) by (auto simp: ready_def)
  from resolvedPhase_succeeds[of ?c1 i x np m] ext g1
  obtain b where s2: "catalyze_next m ?c1 x =
            (Yield (if i = length m - 1 then finished else state ?c1, b),
             ?c1\<lparr>generator := (generator ?c1)\<lparr>r_props := b, r_pos := AtSettled i False\<rparr>,
               c_props := b,
               state := (if i = length m - 1 then finished else state ?c1),
               c_pos := AtResolved i\<rparr>)"
    and b: "settledBag b" "distinct (map fst b)" by auto
  let ?c2 = "?c1\<lparr>generator := (generator ?c1)\<lparr>r_props := b, r_pos := AtSettled i False\<rparr>,
               c_props := b,
               state := (if i = length m - 1 then finished else state ?c1),
               c_pos := AtResolved i\<rparr>"
  have run: "catalyze_run m c [x, x] =
     ([Yield (executing, np), Yield (if i = length m - 1 then finished else state ?c1, b)], ?c2)"
    using s1 s2 by simp
  have last: "(i = length m - 1) = (Suc i = length m)" using il by auto
  have "Suc i < length m \<longrightarrow> ready m (fst x) (Suc i) ?c2"
    using b g1(4) ext st by (auto simp: ready_def)
  then show ?thesis using run st last by (auto simp: statusOf_def)
qed

lemma catalyze_run_append:
  "catalyze_run m c (xs @ ys) =
     (let (rs, c') = catalyze_run m c xs; (rs', c'') = catalyze_run m c' ys in (rs @ rs', c''))"
  by (induction xs arbitrary: c) (auto simp: Let_def split: prod.splits)

lemma pass_statuses:
  assumes "ready m (fst x) i c" and "succeeding m" and "settledBag (snd x)"
      and "n = length m - i"
  shows "map statusOf (fst (catalyze_run m c (replicate (2 * n) x))) =
           replicate (2 * n - 1) (Some executing) @ [Some finished]"
  using assms
proof (induction n arbitrary: i c)
  case 0
  then show ?case by (simp add: ready_def)
next
  case (Suc n)
  from stage_pair[OF Suc.prems(1,2,3)]
  obtain r1 r2 c2 where run: "catalyze_run m c [x, x] = ([r1, r2], c2)"
    and r1: "statusOf r1 = Some executing"
    and r2: "statusOf r2 = Some (if Suc i = length m then finished else executing)"
    and nxt: "Suc i < length m \<longrightarrow> ready m (fst x) (Suc i) c2" by blast
  have rep: "replicate (2 * Suc n) x = [x, x] @ replicate (2 * n) x" by simp
  have split: "fst (catalyze_run m c (replicate (2 * Suc n) x)) =
      r1 # r2 # fst (catalyze_run m c2 (replicate (2 * n) x))"
    unfolding rep catalyze_run_append run by (simp add: case_prod_unfold Let_def)
  show ?case
  proof (cases n)
    case 0
    then have "Suc i = length m" using Suc.prems(4) by simp
    then show ?thesis unfolding split using 0 r1 r2 by simp
  next
    case (Suc n')
    then have lt: "Suc i < length m" and n: "n = length m - Suc i" using Suc.prems(4) by auto
    from Suc.IH[OF _ Suc.prems(2,3) n] nxt lt
    have ih: "map statusOf (fst (catalyze_run m c2 (replicate (2 * n) x))) =
           replicate (2 * n - 1) (Some executing) @ [Some finished]" by simp
    have "2 * Suc n - 1 = Suc (Suc (2 * n - 1))" using Suc by simp
    then have "replicate (2 * Suc n - 1) (Some executing) =
        Some executing # Some executing # replicate (2 * n - 1) (Some executing)"
      by (simp only: replicate_Suc)
    then show ?thesis unfolding split using ih r1 r2 lt by simp
  qed
qed

lemma started_ready:
  assumes "m \<noteq> []"
  shows "ready m ref 0 (snd (catalyze_next m (catalyze m) x0))"
  using assms
  by (simp add: ready_def catalyze_next_def catalyze_def startReaction_def reaction_def
      reaction_next_def settledBag_def)

lemma callLoop_keeps_pending:
  "callLoop g p calls = (p', calls') \<Longrightarrow> isPending (lookup p key) \<Longrightarrow> isPending (lookup p' key)"
proof (induction g arbitrary: p calls)
  case Nil then show ?case by simp
next
  case (Cons a g)
  obtain k at where a: "a = (k, at)" by (cases a)
  have ne: "\<not> isError (lookup p key)" using Cons.prems(2) by (cases "lookup p key") auto
  have upd: "\<And>u. isPending u \<Longrightarrow> isPending (lookup (AList.update k u p) key)"
    using Cons.prems(2) by (simp add: lookup_def update_conv')
  have pr: "\<And>s v. isPending (setPreviousValue (augmentPromise s) v)" "\<And>s. isPending (augmentPromise s)"
    by (simp_all add: augmentPromise_def)
  have "callLoop g p calls = (p', calls')
        \<or> (\<exists>u. isPending u \<and> callLoop g (AList.update k u p) (calls @ [(k, p)]) = (p', calls'))"
    using Cons.prems(1) a pr by (auto simp: Let_def split: if_splits)
  then show ?case using Cons.IH Cons.prems(2) upd by blast
qed

lemma inFlightValue_no_error:
  "list_all (\<lambda>(k, v). inFlightValue v) p \<Longrightarrow> \<not> isError (lookup p key)"
  by (auto simp: lookup_def list_all_iff inFlightValue_def settledValue_def
      split: option.splits dest!: map_of_SomeD)

lemma callLoop_group_pending:
  "callLoop g p calls = (p', calls') \<Longrightarrow> (\<forall>(k, at) \<in> set g. succeeds at) \<Longrightarrow>
   list_all (\<lambda>(k, v). inFlightValue v) p \<Longrightarrow> \<forall>key \<in> fst ` set g. isPending (lookup p' key)"
proof (induction g arbitrary: p calls)
  case Nil then show ?case by simp
next
  case (Cons a g)
  obtain k at where a: "a = (k, at)" by (cases a)
  have rest: "\<forall>(k, at) \<in> set g. succeeds at" using Cons.prems(2) by auto
  from Cons.prems(2) a have "succeeds at" by auto
  then obtain w where w: "at p = Fulfilled w" "settledValue w" by (auto simp: succeeds_def)
  have ne: "\<not> isError (lookup p k)" using Cons.prems(3) by (rule inFlightValue_no_error)
  define u where "u = (if isResolved (lookup p k)
      then setPreviousValue (augmentPromise (at p)) (lookup p k) else augmentPromise (at p))"
  have run: "callLoop g (AList.update k u p) (calls @ [(k, p)]) = (p', calls')"
    using Cons.prems(1) a ne by (simp add: Let_def u_def)
  have up: "isPending u" and uf: "inFlightValue u"
    using w by (auto simp: u_def augmentPromise_def inFlightValue_def)
  have la: "list_all (\<lambda>(k, v). inFlightValue v) (AList.update k u p)"
    using Cons.prems(3) uf by (simp add: list_all_update)
  have "isPending (lookup (AList.update k u p) k)" using up by (simp add: lookup_def update_conv')
  from callLoop_keeps_pending[OF run this] have hd: "isPending (lookup p' k)" .
  from Cons.IH[OF run rest la] hd a show ?case by auto
qed

lemma executeGroup_pending:
  assumes "settledBag prev" and "distinct (map fst prev)" and "\<forall>(k, at) \<in> set g. succeeds at"
      and "executeGroup g prev = Inr (np, calls)"
  shows "\<forall>key \<in> fst ` set g. isPending (lookup np key)"
proof -
  have "callLoop g prev [] = (np, calls)"
    using assms(1,2,4) by (simp add: executeGroup_def copy_distinct convertLoop_settledBag)
  from callLoop_group_pending[OF this assms(3) settledBag_inFlight[OF assms(1)]] show ?thesis .
qed

lemma dispatch_pending:
  assumes "settledBag (mergedProps s)" and "i < length m" and "succeeding m"
      and "dispatch m i s = (Yield np, s')"
  shows "\<forall>key \<in> fst ` set (m ! i). isPending (lookup np key)"
proof -
  have g: "\<forall>(k, at) \<in> set (m ! i). succeeds at"
    using assms(2,3) by (auto simp: succeeding_def)
  from dispatch_Yield[OF assms(4)] obtain calls
    where "executeGroup (m ! i) (mergedProps s) = Inr (np, calls)" by blast
  from executeGroup_pending[OF assms(1) mergedProps_distinct g this] show ?thesis .
qed

lemma stage_observations:
  assumes "ready m (fst x) i c" and "succeeding m" and "settledBag (snd x)"
  shows "\<exists>inflight c1 settled c2.
           catalyze_next m c x = (Yield (executing, inflight), c1)
         \<and> c_pos c1 = AtPromises i \<and> r_pos (generator c1) = AtInFlight i inflight
         \<and> (\<forall>key \<in> fst ` set (m ! i). isPending (lookup inflight key))
         \<and> catalyze_next m c1 x =
             (Yield (if Suc i = length m then finished else executing, settled), c2)
         \<and> c_pos c2 = AtResolved i \<and> r_pos (generator c2) = AtSettled i False
         \<and> settled = map (\<lambda>(k, v). (k, settleValue v)) inflight \<and> settledBag settled"
proof -
  have il: "i < length m" and st: "state c = executing" using assms(1) by (auto simp: ready_def)
  from promisePhase_succeeds[OF assms]
  obtain np g1 where s1: "catalyze_next m c x =
            (Yield (executing, np), c\<lparr>externalProps := (if i = 0 then x else externalProps c),
                                      generator := g1, c_props := np, c_pos := AtPromises i\<rparr>)"
    and g1: "r_pos g1 = AtInFlight i np" "distinct (map fst np)"
        "list_all (\<lambda>(k, v). inFlightValue v) np" by blast
  let ?c1 = "c\<lparr>externalProps := (if i = 0 then x else externalProps c),
                generator := g1, c_props := np, c_pos := AtPromises i\<rparr>"
  have pend: "\<forall>key \<in> fst ` set (m ! i). isPending (lookup np key)"
  proof (cases i)
    case 0
    let ?s = "(generator c)\<lparr>r_nextProps := spread (c_props c) (snd x)\<rparr>"
    have r: "c_pos c = AtStart" "r_pos (generator c) = AtTop" "m \<noteq> []"
      "settledBag (c_props c)" "settledBag (r_props (generator c))"
      using assms(1) 0 by (auto simp: ready_def)
    have mp: "settledBag (mergedProps ?s)"
      using r(4,5) assms(3) by (simp add: mergedProps_def settledBag_spread)
    obtain r0 g0 where d: "dispatch m 0 ?s = (r0, g0)" by (cases "dispatch m 0 ?s")
    have "catalyze_next m c x = promisePhase m 0 (c\<lparr>externalProps := x\<rparr>)"
      using r(1,3) by (simp add: catalyze_next_def)
    moreover have "reaction_next m (generator c) (spread (c_props c) (snd x)) = (r0, g0)"
      using r(2,3) d by (simp add: reaction_next_def)
    ultimately have "r0 = Yield np" using s1 by (cases r0) (auto simp: promisePhase_def)
    with d dispatch_pending[OF mp _ assms(2), of 0 np g0] il 0 show ?thesis by simp
  next
    case (Suc j)
    let ?s = "generator c"
    have r: "c_pos c = AtResolved j" "r_pos ?s = AtSettled j False" "Suc j < length m"
      "fst (externalProps c) = fst x"
      "settledBag (r_props ?s)" "settledBag (r_nextProps ?s)"
      using assms(1) Suc by (auto simp: ready_def)
    have mp: "settledBag (mergedProps ?s)"
      using r(5,6) by (simp add: mergedProps_def settledBag_spread)
    obtain r0 g0 where d: "dispatch m (Suc j) ?s = (r0, g0)" by (cases "dispatch m (Suc j) ?s")
    have "catalyze_next m c x = promisePhase m (Suc j) c"
      using r(1,3,4) by (simp add: catalyze_next_def shouldAbort_def)
    moreover have "reaction_next m ?s (spread (c_props c) (snd (externalProps c))) = (r0, g0)"
      using r(2,3) d by (simp add: reaction_next_def)
    ultimately have "r0 = Yield np" using s1 by (cases r0) (auto simp: promisePhase_def)
    with d dispatch_pending[OF mp r(3) assms(2), of np g0] Suc show ?thesis by simp
  qed
  have ext: "fst (externalProps ?c1) = fst x"
    using assms(1) by (cases i) (auto simp: ready_def)
  let ?b = "map (\<lambda>(k, v). (k, settleValue v)) np"
  have rn: "reaction_next m g1 np = (Yield ?b, g1\<lparr>r_props := ?b, r_pos := AtSettled i False\<rparr>)"
    using reaction_next_settle[OF g1(1), of m np] settled_of_inFlight(2)[OF g1(3)] g1(2)
    by (simp add: copy_distinct)
  have sb: "settledBag ?b" using settled_of_inFlight(1)[OF g1(3)] .
  have last: "(i = length m - 1) = (Suc i = length m)" using il by auto
  have "catalyze_next m ?c1 x = resolvedPhase m i ?c1"
    using ext by (simp add: catalyze_next_def shouldAbort_def)
  also have "\<dots> = (Yield (if Suc i = length m then finished else executing, ?b),
             ?c1\<lparr>generator := g1\<lparr>r_props := ?b, r_pos := AtSettled i False\<rparr>,
               c_props := ?b,
               state := (if Suc i = length m then finished else executing),
               c_pos := AtResolved i\<rparr>)"
    using rn hasErrors_settledBag[OF sb] st last by (simp add: resolvedPhase_def Let_def)
  finally have s2: "catalyze_next m ?c1 x = (Yield (if Suc i = length m then finished else executing, ?b),
             ?c1\<lparr>generator := g1\<lparr>r_props := ?b, r_pos := AtSettled i False\<rparr>,
               c_props := ?b,
               state := (if Suc i = length m then finished else executing),
               c_pos := AtResolved i\<rparr>)" .
  show ?thesis
    apply (rule exI[of _ np], rule exI[of _ ?c1], rule exI[of _ ?b])
    apply (rule exI[of _ "?c1\<lparr>generator := g1\<lparr>r_props := ?b, r_pos := AtSettled i False\<rparr>,
               c_props := ?b,
               state := (if Suc i = length m then finished else executing),
               c_pos := AtResolved i\<rparr>"])
    using s1 s2 g1(1) pend sb by simp
qed

lemma pass_prefix:
  assumes "ready m (fst x) 0 c0" and "succeeding m" and "settledBag (snd x)"
      and "i < length m"
  shows "\<exists>rs c. catalyze_run m c0 (replicate (2 * i) x) = (rs, c)
       \<and> (\<forall>r \<in> set rs. statusOf r = Some executing) \<and> ready m (fst x) i c"
  using assms(4)
proof (induction i)
  case 0
  then show ?case using assms(1) by simp
next
  case (Suc i)
  then obtain rs c where run: "catalyze_run m c0 (replicate (2 * i) x) = (rs, c)"
    and ex: "\<forall>r \<in> set rs. statusOf r = Some executing" and rd: "ready m (fst x) i c" by auto
  have lt: "Suc i < length m" using Suc.prems .
  from stage_pair[OF rd assms(2,3)]
  obtain r1 r2 c2 where p: "catalyze_run m c [x, x] = ([r1, r2], c2)"
    and r1: "statusOf r1 = Some executing"
    and r2': "statusOf r2 = Some (if Suc i = length m then finished else executing)"
    and nx': "Suc i < length m \<longrightarrow> ready m (fst x) (Suc i) c2" by blast
  have r2: "statusOf r2 = Some executing" using r2' lt by simp
  have nx: "ready m (fst x) (Suc i) c2" using nx' lt by simp
  have "replicate (2 * Suc i) x = replicate (2 * i + 2) x" by simp
  also have "\<dots> = replicate (2 * i) x @ replicate 2 x" by (simp only: replicate_add)
  also have "replicate 2 x = [x, x]" by (simp add: numeral_2_eq_2)
  finally have rep: "replicate (2 * Suc i) x = replicate (2 * i) x @ [x, x]" .
  have "catalyze_run m c0 (replicate (2 * Suc i) x) = (rs @ [r1, r2], c2)"
    unfolding rep by (simp add: catalyze_run_append run p del: catalyze_run.simps)
  moreover have "\<forall>r \<in> set (rs @ [r1, r2]). statusOf r = Some executing"
    using ex r1 r2 by simp
  ultimately show ?case using nx by blast
qed

section \<open>Lemmas on catalyze and on the loop of useResources\<close>

lemma startReaction_fresh:
  "startReaction chemicals (Some g) = \<lparr>r_props = [], r_nextProps = [], r_pos = AtTop, invoked = invoked g\<rparr>"
  by (simp add: startReaction_def reaction_def reaction_next_def)

lemma spread_empty: "spread a [] = copy a"
  by (simp add: spread_def copy_def assign_def)

lemma copy_spread: "copy (spread a b) = spread a b"
  by (simp add: copy_distinct distinct_spread)

lemma hasErrors_pos: "(k, Error e) \<in> set p \<Longrightarrow> 0 < hasErrors p"
proof -
  assume "(k, Error e) \<in> set p"
  then have "Error e \<in> set (filter isError (map snd p))" by force
  then show ?thesis unfolding hasErrors_def by (rule length_pos_if_in_set)
qed

lemma waiting_without_timer:
  "h_pos h = Waiting False \<Longrightarrow> \<not> isDepsChanged ev \<Longrightarrow> hook_step chemical h ev = h"
  by (cases ev) auto

lemma waiting_without_timer_run:
  "h_pos h = Waiting False \<Longrightarrow> \<forall>ev \<in> set evs. \<not> isDepsChanged ev \<Longrightarrow> hook_run chemical h evs = h"
  unfolding hook_run_def
  by (induction evs) (auto simp: waiting_without_timer)

section \<open>Lemmas on what catalyze yields\<close>

lemma dispatch_live:
  "dispatch m i s = (r, s') \<Longrightarrow> (\<exists>b. r = Yield b \<and> live s') \<or> (\<exists>e. r = Throw e)"
  by (auto simp: dispatch_def live_def split: sum.splits)

lemma reaction_next_live:
  "live g \<Longrightarrow> reaction_next m g x = (r, g') \<Longrightarrow> (\<exists>b. r = Yield b \<and> live g') \<or> (\<exists>e. r = Throw e)"
  using dispatch_live[of m 0 "g\<lparr>r_nextProps := x\<rparr>" r g'] dispatch_live[of m _ g r g']
  by (cases "r_pos g")
     (auto simp: reaction_next_def live_def Let_def split: if_splits prod.splits)

lemma startReaction_live: "live (startReaction m lastGenerator)"
  by (simp add: startReaction_def reaction_def reaction_next_def live_def)

lemma afterLoop_live:
  "live (generator c) \<Longrightarrow> afterLoop m c = (r, c') \<Longrightarrow> live (generator c')"
  by (auto simp: afterLoop_def Let_def startReaction_live split: if_splits)

lemma promisePhase_live:
  assumes "live (generator c)" and "promisePhase m i c = (r, c')"
  shows "c_pos c' = CDone \<or> live (generator c')"
proof -
  obtain r0 g0 where rn: "reaction_next m (generator c) (spread (c_props c) (snd (externalProps c))) = (r0, g0)"
    by (cases "reaction_next m (generator c) (spread (c_props c) (snd (externalProps c)))")
  from reaction_next_live[OF assms(1) rn] assms(2) rn show ?thesis
    by (auto simp: promisePhase_def)
qed

lemma resolvedPhase_live:
  assumes "live (generator c)" and "resolvedPhase m i c = (r, c')"
  shows "c_pos c' = CDone \<or> live (generator c')"
proof -
  obtain r0 g0 where rn: "reaction_next m (generator c) (c_props c) = (r0, g0)"
    by (cases "reaction_next m (generator c) (c_props c)")
  from reaction_next_live[OF assms(1) rn] assms(2) rn show ?thesis
    by (auto simp: resolvedPhase_def Let_def split: if_splits)
qed

lemma catalyze_next_live:
  assumes "c_pos c = CNotStarted \<or> live (generator c)"
      and "catalyze_next m c x = (r, c')"
  shows "c_pos c' = CDone \<or> live (generator c')"
proof (cases "c_pos c")
  case CNotStarted
  then show ?thesis using assms(2) by (auto simp: catalyze_next_def Let_def startReaction_live)
next
  case AtStart
  then have l: "live (generator (c\<lparr>externalProps := x\<rparr>))" using assms(1) by simp
  show ?thesis
    using assms(2) AtStart afterLoop_live[OF l, of m r c'] promisePhase_live[OF l, of m 0 r c']
    by (auto simp: catalyze_next_def Let_def split: if_splits)
next
  case (AtPromises i)
  then have l: "live (generator c)" "live (generator (c\<lparr>state := invalidating\<rparr>))"
    using assms(1) by auto
  show ?thesis
    using assms(2) AtPromises afterLoop_live[OF l(2), of m r c'] resolvedPhase_live[OF l(1), of m i r c']
    by (auto simp: catalyze_next_def split: if_splits)
next
  case (AtError i)
  then have l: "live (generator c)" using assms(1) by auto
  show ?thesis using assms(2) AtError afterLoop_live[OF l, of m r c'] by (auto simp: catalyze_next_def)
next
  case (AtResolved i)
  then have l: "live (generator c)" "live (generator (c\<lparr>c_props := [], state := invalidating\<rparr>))"
    using assms(1) by auto
  show ?thesis
    using assms(2) AtResolved afterLoop_live[OF l(1), of m r c'] afterLoop_live[OF l(2), of m r c']
      promisePhase_live[OF l(1), of m "Suc i" r c']
    by (auto simp: catalyze_next_def split: if_splits)
next
  case CDone
  then show ?thesis using assms(2) by (auto simp: catalyze_next_def)
qed

lemma error_is_yielded_again:
  "c_pos c = AtError i \<Longrightarrow> state c = error \<Longrightarrow>
   catalyze_next m c x = (Yield (error, c_props c), c\<lparr>c_pos := AtStart\<rparr>)"
  by (simp add: catalyze_next_def afterLoop_def)

lemma afterLoop_status:
  "afterLoop m d = (Yield (st, b), d') \<Longrightarrow> st \<noteq> invalidating \<and> state d' \<noteq> invalidating"
  by (auto simp: afterLoop_def Let_def split: if_splits)

lemma promisePhase_status:
  assumes "state d \<noteq> invalidating" and "promisePhase m j d = (Yield (st, b), d')"
  shows "st \<noteq> invalidating \<and> state d' \<noteq> invalidating"
proof -
  obtain r0 g0 where rn: "reaction_next m (generator d) (spread (c_props d) (snd (externalProps d))) = (r0, g0)"
    by (cases "reaction_next m (generator d) (spread (c_props d) (snd (externalProps d)))")
  show ?thesis using assms rn by (cases r0) (auto simp: promisePhase_def)
qed

lemma resolvedPhase_status:
  assumes "state d \<noteq> invalidating" and "resolvedPhase m j d = (Yield (st, b), d')"
  shows "st \<noteq> invalidating \<and> state d' \<noteq> invalidating"
proof -
  obtain r0 g0 where rn: "reaction_next m (generator d) (c_props d) = (r0, g0)"
    by (cases "reaction_next m (generator d) (c_props d)")
  show ?thesis using assms rn
    by (cases r0) (auto simp: resolvedPhase_def Let_def split: if_splits)
qed

lemma invalidating_is_never_yielded:
  assumes "state c \<noteq> invalidating" and "catalyze_next m c x = (Yield (st, b), c')"
  shows "st \<noteq> invalidating \<and> state c' \<noteq> invalidating"
proof (cases "c_pos c")
  case CNotStarted
  then show ?thesis using assms(2) by (auto simp: catalyze_next_def Let_def)
next
  case AtStart
  have s: "state (c\<lparr>externalProps := x\<rparr>) \<noteq> invalidating" using assms(1) by simp
  show ?thesis
    using assms(2) AtStart afterLoop_status[of m "c\<lparr>externalProps := x\<rparr>" st b c']
      promisePhase_status[OF s, of m 0 st b c']
    by (auto simp: catalyze_next_def Let_def split: if_splits)
next
  case (AtPromises i)
  show ?thesis
    using assms AtPromises afterLoop_status[of m "c\<lparr>state := invalidating\<rparr>" st b c']
      resolvedPhase_status[of c m i st b c']
    by (auto simp: catalyze_next_def split: if_splits)
next
  case (AtError i)
  show ?thesis using assms AtError afterLoop_status[of m c st b c']
    by (auto simp: catalyze_next_def)
next
  case (AtResolved i)
  show ?thesis
    using assms AtResolved afterLoop_status[of m "c\<lparr>c_props := [], state := invalidating\<rparr>" st b c']
      afterLoop_status[of m c st b c'] promisePhase_status[of c m "Suc i" st b c']
    by (auto simp: catalyze_next_def split: if_splits)
next
  case CDone
  then show ?thesis using assms(2) by (auto simp: catalyze_next_def)
qed

section \<open>Lemmas on the calls of an advance\<close>

lemma dispatch_added:
  assumes "dispatch molecule i s = (r, s')"
  shows "\<exists>calls. invoked s' = invoked s @ map (\<lambda>c. (i, c)) calls
        \<and> (calls \<noteq> [] \<longrightarrow> (\<exists>np. executeGroup (molecule ! i) (mergedProps s) = Inr (np, calls)))
        \<and> r_nextProps s' = r_nextProps s"
proof (cases "executeGroup (molecule ! i) (mergedProps s)")
  case (Inl e)
  then have "invoked s' = invoked s @ map (\<lambda>c. (i, c)) []" "r_nextProps s' = r_nextProps s"
    using assms by (auto simp: dispatch_def)
  then show ?thesis by blast
next
  case (Inr res)
  obtain np calls where res: "res = (np, calls)" by (cases res)
  then have "invoked s' = invoked s @ map (\<lambda>c. (i, c)) calls" "r_nextProps s' = r_nextProps s"
    using assms Inr by (auto simp: dispatch_def)
  then show ?thesis using Inr res by blast
qed

lemma executeGroup_received:
  assumes "executeGroup g prev = Inr (np, calls)" and "distinct (map fst prev)"
      and "map_of prev key = Some w" and "\<not> isPromise w" and "key \<notin> fst ` set g"
  shows "\<forall>c \<in> set calls. map_of (snd c) key = Some w"
proof -
  have cp: "copy prev = prev" using assms(2) by (rule copy_distinct)
  from assms(1) obtain p' where conv: "convertLoop prev prev = Inr p'"
    and call: "callLoop g p' [] = (np, calls)"
    by (auto simp: executeGroup_def cp Let_def split: sum.splits)
  have "\<forall>v. (key, v) \<in> set prev \<longrightarrow> v = w"
    using assms(2,3) by (metis map_of_is_SomeI option.inject)
  from convertLoop_keeps_settled[OF conv assms(3,4) this]
  have "map_of p' key = Some w" .
  from callLoop_received[OF call assms(5) this] show ?thesis by simp
qed

lemma dispatch_passes_on:
  assumes "dispatch molecule i s = (r, s')"
      and "map_of (mergedProps s) key = Some w" and "\<not> isPromise w"
      and "c \<in> set (drop (length (invoked s)) (invoked s'))"
      and "key \<notin> fst ` set (molecule ! fst c)"
  shows "map_of (snd (snd c)) key = Some w"
proof -
  from dispatch_added[OF assms(1)] obtain calls
    where inv: "invoked s' = invoked s @ map (\<lambda>c. (i, c)) calls"
      and ex: "calls \<noteq> [] \<longrightarrow> (\<exists>np. executeGroup (molecule ! i) (mergedProps s) = Inr (np, calls))"
    by blast
  from inv assms(4) obtain c' where c: "c = (i, c')" and mem: "c' \<in> set calls" by auto
  then have "calls \<noteq> []" by auto
  with ex obtain np where e: "executeGroup (molecule ! i) (mergedProps s) = Inr (np, calls)" by blast
  have "key \<notin> fst ` set (molecule ! i)" using assms(5) c by simp
  from executeGroup_received[OF e mergedProps_distinct assms(2,3) this] mem c show ?thesis by simp
qed

lemma reaction_next_added:
  assumes "reaction_next molecule s x = (r, s')"
  shows "(r_pos s = AtTop \<and> molecule \<noteq> [] \<and> dispatch molecule 0 (s\<lparr>r_nextProps := x\<rparr>) = (r, s'))
       \<or> (\<exists>i. r_pos s = AtSettled i False \<and> Suc i < length molecule \<and> dispatch molecule (Suc i) s = (r, s'))
       \<or> invoked s' = invoked s"
  using assms
  by (cases "r_pos s") (auto simp: reaction_next_def Let_def split: if_splits prod.splits)

lemma reaction_next_passes_on:
  assumes "reaction_next molecule s x = (r, s')"
      and "distinct (map fst (r_props s))" and "map_of (r_props s) key = Some w" and "\<not> isPromise w"
      and "c \<in> set (drop (length (invoked s)) (invoked s'))"
      and "key \<notin> fst ` set (molecule ! fst c)"
  shows "map_of (snd (snd c)) key = Some w"
proof -
  have m: "\<And>n. map_of (mergedProps (s\<lparr>r_nextProps := n\<rparr>)) key = Some w"
    using assms(2,3) by (simp add: mergedProps_def spread_def map_of_assign_in)
  from m[of "r_nextProps s"] have m': "map_of (mergedProps s) key = Some w" by simp
  from reaction_next_added[OF assms(1)]
  consider "dispatch molecule 0 (s\<lparr>r_nextProps := x\<rparr>) = (r, s')"
    | j where "dispatch molecule (Suc j) s = (r, s')"
    | "invoked s' = invoked s" by blast
  then show ?thesis
  proof cases
    case 1
    from dispatch_passes_on[OF 1 m assms(4) _ assms(6)] assms(5) show ?thesis by simp
  next
    case 2
    from dispatch_passes_on[OF 2 m' assms(4,5,6)] show ?thesis .
  next
    case 3
    then show ?thesis using assms(5) by simp
  qed
qed

lemma startReaction_invoked: "invoked (startReaction m (Some g)) = invoked g"
  by (simp add: startReaction_fresh)

lemma afterLoop_invoked:
  "afterLoop m c = (r, c') \<Longrightarrow> invoked (generator c') = invoked (generator c)"
  by (auto simp: afterLoop_def Let_def startReaction_invoked split: if_splits)

lemma promisePhase_generator:
  "promisePhase m i c = (r, c') \<Longrightarrow>
   \<exists>r0. reaction_next m (generator c) (spread (c_props c) (snd (externalProps c))) = (r0, generator c')"
  by (cases "reaction_next m (generator c) (spread (c_props c) (snd (externalProps c)))")
     (auto simp: promisePhase_def split: iter.splits)

lemma resolvedPhase_generator:
  "resolvedPhase m i c = (r, c') \<Longrightarrow>
   \<exists>r0. reaction_next m (generator c) (c_props c) = (r0, generator c')"
  by (cases "reaction_next m (generator c) (c_props c)")
     (auto simp: resolvedPhase_def Let_def split: iter.splits if_splits)

lemma catalyze_next_generator:
  assumes "catalyze_next m c x = (r, c')"
  shows "(\<exists>sent r0. reaction_next m (generator c) sent = (r0, generator c'))
       \<or> invoked (generator c') = invoked (generator c)
       \<or> invoked (generator c') = []"
proof (cases "c_pos c")
  case CNotStarted
  then have "invoked (generator c') = []"
    using assms
    by (auto simp: catalyze_next_def Let_def startReaction_def reaction_def reaction_next_def)
  then show ?thesis by simp
next
  case AtStart
  show ?thesis
    using assms AtStart afterLoop_invoked[of m "c\<lparr>externalProps := x\<rparr>" r c']
      promisePhase_generator[of m 0 "c\<lparr>externalProps := x\<rparr>" r c']
    by (auto simp: catalyze_next_def Let_def split: if_splits)
next
  case (AtPromises i)
  show ?thesis
    using assms AtPromises afterLoop_invoked[of m "c\<lparr>state := invalidating\<rparr>" r c']
      resolvedPhase_generator[of m i c r c']
    by (auto simp: catalyze_next_def split: if_splits)
next
  case (AtError i)
  show ?thesis using assms AtError afterLoop_invoked[of m c r c']
    by (auto simp: catalyze_next_def)
next
  case (AtResolved i)
  show ?thesis
    using assms AtResolved afterLoop_invoked[of m "c\<lparr>c_props := [], state := invalidating\<rparr>" r c']
      afterLoop_invoked[of m c r c'] promisePhase_generator[of m "Suc i" c r c']
    by (auto simp: catalyze_next_def split: if_splits)
next
  case CDone
  then show ?thesis using assms by (auto simp: catalyze_next_def)
qed

lemma catalyze_start_sends:
  assumes "c_pos c = AtStart" and "r_pos (generator c) = AtTop" and "chemicals \<noteq> []"
      and "catalyze_next chemicals c x = (r, c')"
  shows "\<exists>r0. dispatch chemicals 0 ((generator c)\<lparr>r_nextProps := spread (c_props c) (snd x)\<rparr>)
                = (r0, generator c')"
proof -
  have "catalyze_next chemicals c x = promisePhase chemicals 0 (c\<lparr>externalProps := x\<rparr>)"
    using assms(1,3) by (simp add: catalyze_next_def)
  with assms(4) promisePhase_generator[of chemicals 0 "c\<lparr>externalProps := x\<rparr>" r c']
  obtain r0 where "reaction_next chemicals (generator c) (spread (c_props c) (snd x)) = (r0, generator c')"
    by auto
  then show ?thesis using assms(2,3) by (auto simp: reaction_next_def)
qed

lemma resolvedPhase_reports_error:
  assumes "c_pos c = AtPromises i" and "fst (externalProps c) = fst x"
      and "reaction_next m (generator c) (c_props c) = (Yield settled, g)"
      and "(key, Error e) \<in> set settled"
  shows "catalyze_next m c x =
           (Yield (error, settled),
            c\<lparr>generator := g, c_props := settled, state := error, c_pos := AtError i\<rparr>)"
proof -
  have "0 < hasErrors settled" using assms(4) by (rule hasErrors_pos)
  then show ?thesis
    using assms(1,2,3) by (simp add: catalyze_next_def shouldAbort_def resolvedPhase_def Let_def)
qed

section \<open>Short-circuit on failure\<close>

text \<open>
  C1. In \<^verbatim>\<open>reaction\<close>, when the settled snapshot of stage \<open>i\<close> holds an Error, the
  generator is left with \<open>hasErrors\<close> set, and its next resumption leaves the \<^verbatim>\<open>for\<close>
  loop: it yields the same bag at the top of the \<^verbatim>\<open>while\<close> loop and calls no atom. The
  stages after \<open>i\<close> are not dispatched in that pass.
\<close>

theorem failed_stage_stops_sequence:
  assumes "r_pos s = AtInFlight i newProps"
      and "reaction_next molecule s x = (Yield settled, s')"
      and "(key, Error e) \<in> set settled"
  shows "r_pos s' = AtSettled i True
       \<and> reaction_next molecule s' y = (Yield settled, s'\<lparr>r_pos := AtTop\<rparr>)
       \<and> invoked (s'\<lparr>r_pos := AtTop\<rparr>) = invoked s"
proof -
  note st = reaction_next_settle[OF assms(1), of molecule x]
  from st assms(2) have settled: "settled = map (\<lambda>(k, v). (k, settleValue v)) (copy newProps)"
    and s': "s' = s\<lparr>r_props := settled,
              r_pos := AtSettled i (\<exists>(k, v) \<in> set (copy newProps). isError (settleValue v))\<rparr>"
    by auto
  from assms(3) settled obtain v where "(key, v) \<in> set (copy newProps)" "settleValue v = Error e"
    by auto
  then have "\<exists>(k, v) \<in> set (copy newProps). isError (settleValue v)"
    by force
  with s' have pos: "r_pos s' = AtSettled i True" and pr: "r_props s' = settled"
    and inv: "invoked s' = invoked s" by auto
  from pos pr have "reaction_next molecule s' y = (Yield settled, s'\<lparr>r_pos := AtTop\<rparr>)"
    by (simp add: reaction_next_def)
  with pos inv show ?thesis by simp
qed

theorem failed_stage_stops_sequence_witness:
  "snd (reaction_run scenarioB (reaction []) [[], [(''k'', Number 1)]]) = inFlightB
   \<and> r_pos inFlightB =
       AtInFlight 0 [(''k'', Number 1),
                     (''a'', Promise (Rejected (Error ''boom'')) False False Undefined)]
   \<and> reaction_next scenarioB inFlightB [] =
       (Yield [(''k'', Number 1), (''a'', Error ''boom'')],
        \<lparr>r_props = [(''k'', Number 1), (''a'', Error ''boom'')],
         r_nextProps = [(''k'', Number 1)], r_pos = AtSettled 0 True,
         invoked = [(0, ''a'', [(''k'', Number 1)])]\<rparr>)
   \<and> (''a'', Error ''boom'') \<in> set [(''k'', Number 1), (''a'', Error ''boom'')]
   \<and> reaction_next scenarioB
         \<lparr>r_props = [(''k'', Number 1), (''a'', Error ''boom'')],
          r_nextProps = [(''k'', Number 1)], r_pos = AtSettled 0 True,
          invoked = [(0, ''a'', [(''k'', Number 1)])]\<rparr> [] =
       (Yield [(''k'', Number 1), (''a'', Error ''boom'')],
        \<lparr>r_props = [(''k'', Number 1), (''a'', Error ''boom'')],
         r_nextProps = [(''k'', Number 1)], r_pos = AtTop,
         invoked = [(0, ''a'', [(''k'', Number 1)])]\<rparr>)
   \<and> invoked inFlightB = [(0, ''a'', [(''k'', Number 1)])]"
proof -
  let ?s' = "\<lparr>r_props = [(''k'', Number 1), (''a'', Error ''boom'')],
         r_nextProps = [(''k'', Number 1)], r_pos = AtSettled 0 True,
         invoked = [(0, ''a'', [(''k'', Number 1)])]\<rparr>"
  have h0: "snd (reaction_run scenarioB (reaction []) [[], [(''k'', Number 1)]]) = inFlightB"
    by (simp add: inFlightB_def)
  have h1: "r_pos inFlightB =
       AtInFlight 0 [(''k'', Number 1),
                     (''a'', Promise (Rejected (Error ''boom'')) False False Undefined)]"
    by code_simp
  have h2: "reaction_next scenarioB inFlightB [] =
       (Yield [(''k'', Number 1), (''a'', Error ''boom'')], ?s')"
    by code_simp
  have h3: "(''a'', Error ''boom'') \<in> set [(''k'', Number 1), (''a'', Error ''boom'')]"
    by simp
  have h4: "invoked inFlightB = [(0, ''a'', [(''k'', Number 1)])]" by code_simp
  from failed_stage_stops_sequence[OF h1 h2 h3, of "[]"] h0 h1 h2 h3 h4
  show ?thesis by simp
qed

section \<open>Observations of a pass\<close>

text \<open>
  C2 (as amended). For a molecule of \<open>N \<ge> 1\<close> stages whose atoms never fail, and inputs
  that hold neither an error nor a promise, the first pass of a started \<^verbatim>\<open>catalyze\<close>
  generator, advanced with the same inputs, gives exactly \<open>2N\<close> observations, two for
  each stage \<open>i\<close>. After \<open>2i\<close> observations, all of status executing, comes the in-flight
  snapshot of stage \<open>i\<close>: \<^verbatim>\<open>reaction\<close> is suspended at line 100 inside group \<open>i\<close> with the
  bag observed, every key of the group holds a pending promise, and the status is
  executing. The next one is the settled snapshot of stage \<open>i\<close>: \<^verbatim>\<open>reaction\<close> is suspended
  at line 114 inside group \<open>i\<close>, the bag is the in-flight bag with every promise replaced
  by its value, and the status is finished for the last stage, executing otherwise. So
  \<open>2N - 1\<close> observations of the pass, not \<open>2N\<close>, come before the one whose status differs
  from executing, which is itself the settled snapshot of the last stage.
\<close>

theorem first_pass_observations:
  assumes "chemicals \<noteq> []" and "succeeding chemicals" and "settledBag (snd x)"
      and "i < length chemicals"
  shows "(\<exists>rs c inflight c1 settled c2.
            catalyze_run chemicals (snd (catalyze_next chemicals (catalyze chemicals) x0))
              (replicate (2 * i) x) = (rs, c)
          \<and> (\<forall>r \<in> set rs. statusOf r = Some executing)
          \<and> catalyze_next chemicals c x = (Yield (executing, inflight), c1)
          \<and> c_pos c1 = AtPromises i \<and> r_pos (generator c1) = AtInFlight i inflight
          \<and> (\<forall>key \<in> fst ` set (chemicals ! i). isPending (lookup inflight key))
          \<and> catalyze_next chemicals c1 x =
              (Yield (if Suc i = length chemicals then finished else executing, settled), c2)
          \<and> c_pos c2 = AtResolved i \<and> r_pos (generator c2) = AtSettled i False
          \<and> settled = map (\<lambda>(k, v). (k, settleValue v)) inflight \<and> settledBag settled)
       \<and> map statusOf
           (fst (catalyze_run chemicals (snd (catalyze_next chemicals (catalyze chemicals) x0))
                   (replicate (2 * length chemicals) x)))
         = replicate (2 * length chemicals - 1) (Some executing) @ [Some finished]"
proof -
  let ?c0 = "snd (catalyze_next chemicals (catalyze chemicals) x0)"
  have rd: "ready chemicals (fst x) 0 ?c0" using assms(1) by (rule started_ready)
  from pass_prefix[OF rd assms(2,3,4)]
  obtain rs c where run: "catalyze_run chemicals ?c0 (replicate (2 * i) x) = (rs, c)"
    and ex: "\<forall>r \<in> set rs. statusOf r = Some executing" and ri: "ready chemicals (fst x) i c"
    by blast
  from stage_observations[OF ri assms(2,3)]
  obtain inflight c1 settled c2 where
        o1: "catalyze_next chemicals c x = (Yield (executing, inflight), c1)"
    and o2: "c_pos c1 = AtPromises i" "r_pos (generator c1) = AtInFlight i inflight"
    and o3: "\<forall>key \<in> fst ` set (chemicals ! i). isPending (lookup inflight key)"
    and o4: "catalyze_next chemicals c1 x =
              (Yield (if Suc i = length chemicals then finished else executing, settled), c2)"
    and o5: "c_pos c2 = AtResolved i" "r_pos (generator c2) = AtSettled i False"
    and o6: "settled = map (\<lambda>(k, v). (k, settleValue v)) inflight" "settledBag settled"
    by blast
  have first: "\<exists>rs c inflight c1 settled c2.
            catalyze_run chemicals ?c0 (replicate (2 * i) x) = (rs, c)
          \<and> (\<forall>r \<in> set rs. statusOf r = Some executing)
          \<and> catalyze_next chemicals c x = (Yield (executing, inflight), c1)
          \<and> c_pos c1 = AtPromises i \<and> r_pos (generator c1) = AtInFlight i inflight
          \<and> (\<forall>key \<in> fst ` set (chemicals ! i). isPending (lookup inflight key))
          \<and> catalyze_next chemicals c1 x =
              (Yield (if Suc i = length chemicals then finished else executing, settled), c2)
          \<and> c_pos c2 = AtResolved i \<and> r_pos (generator c2) = AtSettled i False
          \<and> settled = map (\<lambda>(k, v). (k, settleValue v)) inflight \<and> settledBag settled"
    apply (rule exI[of _ rs], rule exI[of _ c], rule exI[of _ inflight], rule exI[of _ c1])
    apply (rule exI[of _ settled], rule exI[of _ c2])
    using run ex o1 o2 o3 o4 o5 o6 by (intro conjI) assumption+
  from pass_statuses[OF rd assms(2,3), of "length chemicals"]
  have second: "map statusOf (fst (catalyze_run chemicals ?c0 (replicate (2 * length chemicals) x)))
         = replicate (2 * length chemicals - 1) (Some executing) @ [Some finished]" by simp
  from first second show ?thesis by (rule conjI)
qed

theorem first_pass_observations_witness:
  "scenarioC \<noteq> [] \<and> succeeding scenarioC \<and> settledBag (snd (1 :: nat, [(''k'', Number 1)]))
   \<and> (1 :: nat) < length scenarioC \<and> length scenarioC = 2
   \<and> fst (catalyze_run scenarioC (snd (catalyze_next scenarioC (catalyze scenarioC) (0, [])))
            (replicate 4 (1, [(''k'', Number 1)]))) =
       [Yield (executing, [(''k'', Number 1),
                           (''a'', Promise (Fulfilled (Str ''x'')) False False Undefined)]),
        Yield (executing, [(''k'', Number 1), (''a'', Str ''x'')]),
        Yield (executing, [(''k'', Number 1), (''a'', Str ''x''),
                           (''b'', Promise (Fulfilled (Str ''y'')) False False Undefined)]),
        Yield (finished, [(''k'', Number 1), (''a'', Str ''x''), (''b'', Str ''y'')])]
   \<and> r_pos (generator (snd (catalyze_run scenarioC
            (snd (catalyze_next scenarioC (catalyze scenarioC) (0, [])))
            (replicate 3 (1, [(''k'', Number 1)]))))) =
       AtInFlight 1 [(''k'', Number 1), (''a'', Str ''x''),
                     (''b'', Promise (Fulfilled (Str ''y'')) False False Undefined)]
   \<and> isPending (lookup [(''k'', Number 1), (''a'', Str ''x''),
                         (''b'', Promise (Fulfilled (Str ''y'')) False False Undefined)] ''b'')
   \<and> r_pos (generator (snd (catalyze_run scenarioC
            (snd (catalyze_next scenarioC (catalyze scenarioC) (0, [])))
            (replicate 4 (1, [(''k'', Number 1)]))))) = AtSettled 1 False
   \<and> map statusOf
        (fst (catalyze_run scenarioC (snd (catalyze_next scenarioC (catalyze scenarioC) (0, [])))
                (replicate 4 (1, [(''k'', Number 1)]))))
      = [Some executing, Some executing, Some executing, Some finished]"
proof -
  let ?c0 = "snd (catalyze_next scenarioC (catalyze scenarioC) (0, []))"
  let ?x = "(1 :: nat, [(''k'', Number 1)])"
  have h1: "scenarioC \<noteq> []" by (simp add: scenarioC_def)
  have h2: "succeeding scenarioC"
    by (simp add: succeeding_def succeeds_def scenarioC_def settledValue_def)
  have h3: "settledBag (snd ?x)" by (simp add: settledBag_def settledValue_def)
  have h4: "(1 :: nat) < length scenarioC" by (simp add: scenarioC_def)
  have h5: "length scenarioC = 2" by (simp add: scenarioC_def)
  have h6: "fst (catalyze_run scenarioC ?c0 (replicate 4 ?x)) =
       [Yield (executing, [(''k'', Number 1),
                           (''a'', Promise (Fulfilled (Str ''x'')) False False Undefined)]),
        Yield (executing, [(''k'', Number 1), (''a'', Str ''x'')]),
        Yield (executing, [(''k'', Number 1), (''a'', Str ''x''),
                           (''b'', Promise (Fulfilled (Str ''y'')) False False Undefined)]),
        Yield (finished, [(''k'', Number 1), (''a'', Str ''x''), (''b'', Str ''y'')])]"
    by code_simp
  have h7: "r_pos (generator (snd (catalyze_run scenarioC ?c0 (replicate 3 ?x)))) =
       AtInFlight 1 [(''k'', Number 1), (''a'', Str ''x''),
                     (''b'', Promise (Fulfilled (Str ''y'')) False False Undefined)]"
    by code_simp
  have h8: "isPending (lookup [(''k'', Number 1), (''a'', Str ''x''),
                         (''b'', Promise (Fulfilled (Str ''y'')) False False Undefined)] ''b'')"
    by code_simp
  have h9: "r_pos (generator (snd (catalyze_run scenarioC ?c0 (replicate 4 ?x)))) = AtSettled 1 False"
    by code_simp
  from first_pass_observations[OF h1 h2 h3 h4, of "(0, [])"] h1 h2 h3 h4 h5 h6 h7 h8 h9
  show ?thesis by (simp add: statusOf_def)
qed

text \<open>
  Against C2 as stated: with one stage, the second of the \<open>2N = 2\<close> observations of the
  pass is already the one with status finished.
\<close>

theorem last_settled_snapshot_is_finished_counterexample:
  "length scenarioA = 1
   \<and> fst (catalyze_run scenarioA startedA (replicate 2 (1, [(''k'', Number 1)]))) =
       [Yield (executing, [(''k'', Number 1),
                           (''a'', Promise (Fulfilled (Str ''x'')) False False Undefined)]),
        Yield (finished, [(''k'', Number 1), (''a'', Str ''x'')])]"
  by code_simp

section \<open>A failed cell stays failed\<close>

text \<open>
  C3. Once the bag of a \<^verbatim>\<open>reaction\<close> generator holds an Error under a key, then however
  the generator is advanced, every bag it yields holds that same Error under the key,
  and the history of calls gains no call of the key's atom.
\<close>

theorem failed_cell_is_kept:
  assumes "reaction_run molecule s xs = (rs, s')"
      and "r_pos s \<noteq> RNotStarted"
      and "distinct (map fst (bag s))" and "map_of (bag s) key = Some (Error e)"
  shows "(\<forall>b. Yield b \<in> set rs \<longrightarrow> map_of b key = Some (Error e))
       \<and> filter (\<lambda>c. fst (snd c) = key) (invoked s') = filter (\<lambda>c. fst (snd c) = key) (invoked s)"
  using assms
proof (induction xs arbitrary: s rs)
  case Nil then show ?case by simp
next
  case (Cons x xs)
  obtain r s1 where step: "reaction_next molecule s x = (r, s1)" by (cases "reaction_next molecule s x")
  obtain rs1 where rest: "reaction_run molecule s1 xs = (rs1, s')" and rs: "rs = r # rs1"
    using Cons.prems(1) step by (auto split: prod.splits)
  note k = reaction_next_keeps_error[OF step Cons.prems(2,3,4)]
  from Cons.IH[OF rest] k show ?case using rs by auto
qed

theorem failed_cell_is_kept_witness:
  "reaction_run partialFailure settledPartial [[], [], [], []] =
     ([Yield [(''a'', Error ''boom''), (''c'', Str ''z'')],
       Yield [(''a'', Error ''boom''),
              (''c'', Promise (Fulfilled (Str ''z'')) False False (Str ''z''))],
       Yield [(''a'', Error ''boom''), (''c'', Str ''z'')],
       Yield [(''a'', Error ''boom''), (''c'', Str ''z'')]],
      \<lparr>r_props = [(''a'', Error ''boom''), (''c'', Str ''z'')], r_nextProps = [],
       r_pos = AtTop,
       invoked = [(0, ''a'', []),
                  (0, ''c'', [(''a'', Promise (Rejected (Error ''boom'')) False False Undefined)]),
                  (0, ''c'', [(''a'', Error ''boom''), (''c'', Str ''z'')])]\<rparr>)
   \<and> r_pos settledPartial \<noteq> RNotStarted
   \<and> distinct (map fst (bag settledPartial))
   \<and> map_of (bag settledPartial) ''a'' = Some (Error ''boom'')
   \<and> filter (\<lambda>c. fst (snd c) = ''a'') (invoked settledPartial) = [(0, ''a'', [])]
   \<and> filter (\<lambda>c. fst (snd c) = ''a'')
        [(0, ''a'', []),
         (0, ''c'', [(''a'', Promise (Rejected (Error ''boom'')) False False Undefined)]),
         (0, ''c'', [(''a'', Error ''boom''), (''c'', Str ''z'')])] = [(0, ''a'', [])]"
proof -
  let ?s' = "\<lparr>r_props = [(''a'', Error ''boom''), (''c'', Str ''z'')], r_nextProps = [],
       r_pos = AtTop,
       invoked = [(0, ''a'', []),
                  (0, ''c'', [(''a'', Promise (Rejected (Error ''boom'')) False False Undefined)]),
                  (0, ''c'', [(''a'', Error ''boom''), (''c'', Str ''z'')])]\<rparr>"
  have h1: "reaction_run partialFailure settledPartial [[], [], [], []] =
     ([Yield [(''a'', Error ''boom''), (''c'', Str ''z'')],
       Yield [(''a'', Error ''boom''),
              (''c'', Promise (Fulfilled (Str ''z'')) False False (Str ''z''))],
       Yield [(''a'', Error ''boom''), (''c'', Str ''z'')],
       Yield [(''a'', Error ''boom''), (''c'', Str ''z'')]], ?s')"
    by code_simp
  have h2: "r_pos settledPartial \<noteq> RNotStarted" by code_simp
  have h3: "distinct (map fst (bag settledPartial))" by code_simp
  have h4: "map_of (bag settledPartial) ''a'' = Some (Error ''boom'')" by code_simp
  have h5: "filter (\<lambda>c. fst (snd c) = ''a'') (invoked settledPartial) = [(0, ''a'', [])]"
    by code_simp
  from failed_cell_is_kept[OF h1 h2 h3 h4] h1 h2 h3 h4 h5
  show ?thesis by simp
qed

section \<open>Which value the atoms receive for a shared key\<close>

text \<open>
  C4 (as amended). When \<^verbatim>\<open>catalyze\<close> begins a pass and \<^verbatim>\<open>reaction\<close> is at the top of its
  loop, the bag \<^verbatim>\<open>reaction\<close> takes as \<open>nextProps\<close> holds, for every key of the inputs, the
  externally supplied value; and when the executor's own bag does not hold the key, every
  atom called on that advance receives that value. On any advance, for a key that the
  executor's own bag holds, every atom called receives the executor's value, whatever the
  inputs say: \<^verbatim>\<open>reaction\<close> merges its own bag over the bag sent. (Both for values that
  are not promises and keys that are not atoms of the stage dispatched; the calls of an
  advance are those the advance appends to the history.)
\<close>

theorem executor_bag_takes_precedence:
  "(c_pos c = AtStart \<and> r_pos (generator c) = AtTop \<and> chemicals \<noteq> []
      \<and> catalyze_next chemicals c x = (r, c')
      \<and> distinct (map fst (snd x)) \<and> map_of (snd x) key = Some v
      \<longrightarrow> map_of (r_nextProps (generator c')) key = Some v
          \<and> (map_of (r_props (generator c)) key = None \<and> \<not> isPromise v
              \<longrightarrow> (\<forall>call \<in> set (drop (length (invoked (generator c))) (invoked (generator c'))).
                     key \<notin> fst ` set (chemicals ! fst call)
                     \<longrightarrow> map_of (snd (snd call)) key = Some v)))
 \<and> (catalyze_next chemicals d y = (r2, d')
      \<and> distinct (map fst (r_props (generator d)))
      \<and> map_of (r_props (generator d)) key2 = Some w \<and> \<not> isPromise w
      \<longrightarrow> (\<forall>call \<in> set (drop (length (invoked (generator d))) (invoked (generator d'))).
             key2 \<notin> fst ` set (chemicals ! fst call)
             \<longrightarrow> map_of (snd (snd call)) key2 = Some w))"
proof (intro conjI impI ballI)
  assume a: "c_pos c = AtStart \<and> r_pos (generator c) = AtTop \<and> chemicals \<noteq> []
      \<and> catalyze_next chemicals c x = (r, c')
      \<and> distinct (map fst (snd x)) \<and> map_of (snd x) key = Some v"
  let ?sent = "spread (c_props c) (snd x)"
  from a catalyze_start_sends[of c chemicals x r c']
  obtain r0 where d: "dispatch chemicals 0 ((generator c)\<lparr>r_nextProps := ?sent\<rparr>) = (r0, generator c')"
    by blast
  from dispatch_added[OF d] have "r_nextProps (generator c') = ?sent" by auto
  then show "map_of (r_nextProps (generator c')) key = Some v"
    using a by (simp add: spread_def map_of_assign_in)
next
  fix call
  assume a: "c_pos c = AtStart \<and> r_pos (generator c) = AtTop \<and> chemicals \<noteq> []
      \<and> catalyze_next chemicals c x = (r, c')
      \<and> distinct (map fst (snd x)) \<and> map_of (snd x) key = Some v"
    and b: "map_of (r_props (generator c)) key = None \<and> \<not> isPromise v"
    and mem: "call \<in> set (drop (length (invoked (generator c))) (invoked (generator c')))"
    and out: "key \<notin> fst ` set (chemicals ! fst call)"
  let ?sent = "spread (c_props c) (snd x)"
  let ?s = "(generator c)\<lparr>r_nextProps := ?sent\<rparr>"
  from a catalyze_start_sends[of c chemicals x r c']
  obtain r0 where d: "dispatch chemicals 0 ?s = (r0, generator c')" by blast
  have sent: "map_of ?sent key = Some v" using a by (simp add: spread_def map_of_assign_in)
  have "key \<notin> fst ` set (r_props (generator c))" using b by (simp add: map_of_eq_None_iff)
  then have "map_of (assign (copy ?sent) (r_props (generator c))) key = Some v"
    using sent by (simp add: map_of_assign_notin copy_spread)
  then have m: "map_of (mergedProps ?s) key = Some v"
    by (simp add: mergedProps_def spread_def[of ?sent] copy_def)
  have mem': "call \<in> set (drop (length (invoked ?s)) (invoked (generator c')))" using mem by simp
  from dispatch_passes_on[OF d m _ mem' out] b show "map_of (snd (snd call)) key = Some v" by simp
next
  fix call
  assume a: "catalyze_next chemicals d y = (r2, d')
      \<and> distinct (map fst (r_props (generator d)))
      \<and> map_of (r_props (generator d)) key2 = Some w \<and> \<not> isPromise w"
    and mem: "call \<in> set (drop (length (invoked (generator d))) (invoked (generator d')))"
    and out: "key2 \<notin> fst ` set (chemicals ! fst call)"
  from a catalyze_next_generator[of chemicals d y r2 d']
  consider sent r0 where "reaction_next chemicals (generator d) sent = (r0, generator d')"
    | "invoked (generator d') = invoked (generator d)" | "invoked (generator d') = []" by blast
  then show "map_of (snd (snd call)) key2 = Some w"
  proof cases
    case 1
    from reaction_next_passes_on[OF 1 _ _ _ mem out] a show ?thesis by blast
  next
    case 2
    then show ?thesis using mem by simp
  next
    case 3
    then show ?thesis using mem by simp
  qed
qed

theorem executor_bag_takes_precedence_witness:
  "c_pos startedShared = AtStart \<and> r_pos (generator startedShared) = AtTop \<and> sharedKey \<noteq> []
   \<and> distinct (map fst (snd (1 :: nat, [(''a'', Str ''ext''), (''k'', Number 1)])))
   \<and> map_of (snd (1 :: nat, [(''a'', Str ''ext''), (''k'', Number 1)])) ''k'' = Some (Number 1)
   \<and> map_of (r_props (generator startedShared)) ''k'' = None \<and> \<not> isPromise (Number 1)
   \<and> r_nextProps (generator (snd (catalyze_next sharedKey startedShared
                                     (1, [(''a'', Str ''ext''), (''k'', Number 1)]))))
       = [(''a'', Str ''ext''), (''k'', Number 1)]
   \<and> drop (length (invoked (generator startedShared)))
        (invoked (generator (snd (catalyze_next sharedKey startedShared
                                    (1, [(''a'', Str ''ext''), (''k'', Number 1)])))))
       = [(0, ''a'', [(''a'', Str ''ext''), (''k'', Number 1)])]
   \<and> ''k'' \<notin> fst ` set (sharedKey ! 0)
   \<and> map_of [(''a'', Str ''ext''), (''k'', Number 1)] ''k'' = Some (Number 1)
   \<and> c_pos resolvedShared = AtResolved 0
   \<and> r_props (generator resolvedShared) = [(''a'', Str ''x''), (''k'', Number 1)]
   \<and> map_of (r_props (generator resolvedShared)) ''a'' = Some (Str ''x'') \<and> \<not> isPromise (Str ''x'')
   \<and> drop (length (invoked (generator resolvedShared)))
        (invoked (generator (snd (catalyze_next sharedKey resolvedShared
                                    (1, [(''a'', Str ''ext''), (''k'', Number 1)])))))
       = [(1, ''b'', [(''a'', Str ''x''), (''k'', Number 1)])]
   \<and> ''a'' \<notin> fst ` set (sharedKey ! 1)
   \<and> map_of [(''a'', Str ''x''), (''k'', Number 1)] ''a'' = Some (Str ''x'')"
proof -
  let ?x = "(1 :: nat, [(''a'', Str ''ext''), (''k'', Number 1)])"
  have a1: "c_pos startedShared = AtStart" by code_simp
  have a2: "r_pos (generator startedShared) = AtTop" by code_simp
  have a3: "sharedKey \<noteq> []" by (simp add: sharedKey_def)
  have a4: "catalyze_next sharedKey startedShared ?x =
      (fst (catalyze_next sharedKey startedShared ?x), snd (catalyze_next sharedKey startedShared ?x))"
    by simp
  have a5: "distinct (map fst (snd ?x))" by simp
  have a6: "map_of (snd ?x) ''k'' = Some (Number 1)" by simp
  have a7: "map_of (r_props (generator startedShared)) ''k'' = None" by code_simp
  have a8: "r_nextProps (generator (snd (catalyze_next sharedKey startedShared ?x)))
       = [(''a'', Str ''ext''), (''k'', Number 1)]" by code_simp
  have a9: "drop (length (invoked (generator startedShared)))
        (invoked (generator (snd (catalyze_next sharedKey startedShared ?x))))
       = [(0, ''a'', [(''a'', Str ''ext''), (''k'', Number 1)])]" by code_simp
  have a10: "''k'' \<notin> fst ` set (sharedKey ! 0)" by (simp add: sharedKey_def)
  have b0: "c_pos resolvedShared = AtResolved 0" by code_simp
  have b1: "catalyze_next sharedKey resolvedShared ?x =
      (fst (catalyze_next sharedKey resolvedShared ?x), snd (catalyze_next sharedKey resolvedShared ?x))"
    by simp
  have b2: "r_props (generator resolvedShared) = [(''a'', Str ''x''), (''k'', Number 1)]"
    by code_simp
  have b3: "drop (length (invoked (generator resolvedShared)))
        (invoked (generator (snd (catalyze_next sharedKey resolvedShared ?x))))
       = [(1, ''b'', [(''a'', Str ''x''), (''k'', Number 1)])]" by code_simp
  have b4: "''a'' \<notin> fst ` set (sharedKey ! 1)" by (simp add: sharedKey_def)
  from executor_bag_takes_precedence
         [where c = startedShared and chemicals = sharedKey and x = ?x
            and r = "fst (catalyze_next sharedKey startedShared ?x)"
            and c' = "snd (catalyze_next sharedKey startedShared ?x)"
            and key = "''k''" and v = "Number 1"
            and d = resolvedShared and y = ?x
            and ?r2.0 = "fst (catalyze_next sharedKey resolvedShared ?x)"
            and d' = "snd (catalyze_next sharedKey resolvedShared ?x)"
            and ?key2.0 = "''a''" and w = "Str ''x''"]
       a1 a2 a3 a4 a5 a6 a7 a8 a9 a10 b0 b1 b2 b3 b4
  show ?thesis by simp
qed

text \<open>
  Against C4 as stated: the inputs supply \<open>a = "ext"\<close>, stage 0 produces \<open>a = "x"\<close>, and
  the atom of stage 1 is called with \<open>a = "x"\<close>.
\<close>

theorem engine_output_shadows_input_counterexample:
  "invoked (generator (snd (catalyze_run sharedKey (catalyze sharedKey)
                              (replicate 4 (1, [(''a'', Str ''ext'')])))))
     = [(0, ''a'', [(''a'', Str ''ext'')]), (1, ''b'', [(''a'', Str ''x'')])]"
  by code_simp

section \<open>A change of the inputs in the middle of a stage\<close>

text \<open>
  C5 (as amended). When \<^verbatim>\<open>catalyze\<close> is suspended after the in-flight snapshot of a
  stage and is advanced with inputs whose identity differs from that of the inputs the
  pass began with, the observation of that advance has status executing, not
  invalidating, and carries the in-flight bag of the abandoned pass unchanged; no atom
  is called, and the executor is replaced by a fresh one. The advance after it
  dispatches the first stage on the fresh executor, with the carried bag merged under
  the inputs of that advance, and its observation has status executing as well (or the
  dispatch throws).
\<close>

theorem input_change_mid_stage:
  assumes "c_pos c = AtPromises i" and "fst (externalProps c) \<noteq> fst x" and "chemicals \<noteq> []"
  shows "\<exists>c'. catalyze_next chemicals c x = (Yield (executing, c_props c), c')
       \<and> c_pos c' = AtStart
       \<and> r_pos (generator c') = AtTop \<and> r_props (generator c') = []
       \<and> invoked (generator c') = invoked (generator c)
       \<and> (\<forall>y. case executeGroup (chemicals ! 0) (spread (c_props c) (snd y)) of
                 Inl e \<Rightarrow> fst (catalyze_next chemicals c' y) = Throw e
               | Inr (newProps, calls) \<Rightarrow>
                   (\<exists>c''. catalyze_next chemicals c' y = (Yield (executing, newProps), c'')
                     \<and> c_pos c'' = AtPromises 0 \<and> externalProps c'' = y
                     \<and> invoked (generator c'') = invoked (generator c) @ map (\<lambda>c. (0, c)) calls))"
proof -
  let ?g = "startReaction chemicals (Some (generator c))"
  let ?c' = "c\<lparr>state := executing, generator := ?g, c_pos := AtStart\<rparr>"
  have first: "catalyze_next chemicals c x = (Yield (executing, c_props c), ?c')"
    using assms(1,2) by (simp add: catalyze_next_def shouldAbort_def afterLoop_def)
  have g: "?g = \<lparr>r_props = [], r_nextProps = [], r_pos = AtTop, invoked = invoked (generator c)\<rparr>"
    by (rule startReaction_fresh)
  have second: "case executeGroup (chemicals ! 0) (spread (c_props c) (snd y)) of
                 Inl e \<Rightarrow> fst (catalyze_next chemicals ?c' y) = Throw e
               | Inr (newProps, calls) \<Rightarrow>
                   (\<exists>c''. catalyze_next chemicals ?c' y = (Yield (executing, newProps), c'')
                     \<and> c_pos c'' = AtPromises 0 \<and> externalProps c'' = y
                     \<and> invoked (generator c'') = invoked (generator c) @ map (\<lambda>c. (0, c)) calls)" for y
  proof -
    let ?sent = "spread (c_props c) (snd y)"
    have m: "mergedProps (?g\<lparr>r_nextProps := ?sent\<rparr>) = ?sent"
      by (simp add: g mergedProps_def spread_empty copy_spread)
    have cn: "catalyze_next chemicals ?c' y = promisePhase chemicals 0 (?c'\<lparr>externalProps := y\<rparr>)"
      using assms(3) by (simp add: catalyze_next_def)
    have rn: "reaction_next chemicals ?g ?sent = dispatch chemicals 0 (?g\<lparr>r_nextProps := ?sent\<rparr>)"
      using assms(3) by (simp add: g reaction_next_def)
    show ?thesis
    proof (cases "executeGroup (chemicals ! 0) ?sent")
      case (Inl e)
      then have "dispatch chemicals 0 (?g\<lparr>r_nextProps := ?sent\<rparr>) = (Throw e, ?g\<lparr>r_nextProps := ?sent, r_pos := RDone\<rparr>)"
        using m by (simp add: dispatch_def)
      then show ?thesis using Inl cn rn by (simp add: promisePhase_def)
    next
      case (Inr res)
      obtain np calls where res: "res = (np, calls)" by (cases res)
      have "dispatch chemicals 0 (?g\<lparr>r_nextProps := ?sent\<rparr>) =
          (Yield np, ?g\<lparr>r_nextProps := ?sent, r_pos := AtInFlight 0 np,
                       invoked := invoked (generator c) @ map (\<lambda>c. (0, c)) calls\<rparr>)"
        using m Inr res by (simp add: dispatch_def g)
      then show ?thesis using Inr res cn rn by (simp add: promisePhase_def)
    qed
  qed
  show ?thesis
    using first second g by (intro exI[of _ ?c']) simp
qed

theorem input_change_mid_stage_witness:
  "c_pos midStageA = AtPromises 0
   \<and> fst (externalProps midStageA) \<noteq> fst (2 :: nat, [(''k'', Number 2)])
   \<and> scenarioA \<noteq> []
   \<and> invoked (generator midStageA) = [(0, ''a'', [(''k'', Number 1)])]
   \<and> fst (catalyze_run scenarioA midStageA [(2, [(''k'', Number 2)]), (2, [(''k'', Number 2)])]) =
       [Yield (executing, [(''k'', Number 1),
                           (''a'', Promise (Fulfilled (Str ''x'')) False False Undefined)]),
        Yield (executing, [(''k'', Number 2),
                           (''a'', Promise (Fulfilled (Str ''x'')) False False Undefined)])]"
proof -
  have h1: "c_pos midStageA = AtPromises 0" by code_simp
  have h2: "fst (externalProps midStageA) \<noteq> fst (2 :: nat, [(''k'', Number 2)])" by code_simp
  have h3: "scenarioA \<noteq> []" by (simp add: scenarioA_def)
  have h4: "invoked (generator midStageA) = [(0, ''a'', [(''k'', Number 1)])]" by code_simp
  have h5: "fst (catalyze_run scenarioA midStageA [(2, [(''k'', Number 2)]), (2, [(''k'', Number 2)])]) =
       [Yield (executing, [(''k'', Number 1),
                           (''a'', Promise (Fulfilled (Str ''x'')) False False Undefined)]),
        Yield (executing, [(''k'', Number 2),
                           (''a'', Promise (Fulfilled (Str ''x'')) False False Undefined)])]"
    by code_simp
  from input_change_mid_stage[OF h1 h2 h3] h1 h2 h3 h4 h5
  show ?thesis by simp
qed

text \<open>
  Against C5 as stated: the inputs change between the in-flight and the settled
  observation of the only stage; the next observation has status executing and shows
  the bag of the abandoned pass, its promise included.
\<close>

theorem invalidating_is_not_observed_counterexample:
  "fst (catalyze_run scenarioA (catalyze scenarioA)
          [(0, []), (1, [(''k'', Number 1)]), (2, [(''k'', Number 2)]), (2, [(''k'', Number 2)])]) =
     [Yield (executing, []),
      Yield (executing, [(''k'', Number 1),
                         (''a'', Promise (Fulfilled (Str ''x'')) False False Undefined)]),
      Yield (executing, [(''k'', Number 1),
                         (''a'', Promise (Fulfilled (Str ''x'')) False False Undefined)]),
      Yield (executing, [(''k'', Number 2),
                         (''a'', Promise (Fulfilled (Str ''x'')) False False Undefined)])]"
  by code_simp

section \<open>Halt on error until the inputs change\<close>

text \<open>
  C6. The loop of \<^verbatim>\<open>useResources\<close> has a call of \<^verbatim>\<open>catalyze\<close> pending, made with the
  inputs the pass began with, while \<^verbatim>\<open>catalyze\<close> waits to settle a stage. When the
  snapshot the executor then yields holds an Error, the loop hands the component one
  observation, of status error with that snapshot, and suspends on a wait that has no
  timer. From then on, whatever happens short of a change of the identity of the inputs
  leaves everything as it is: the observations emitted stay the same, so error is emitted
  once; \<^verbatim>\<open>catalyze\<close> is not advanced, so no atom is called and no stage begins. Only a
  change of the inputs resumes the loop.
\<close>

theorem error_halts_until_inputs_change:
  assumes "h_pos h = Pulling sent"
      and "c_pos (h_generator h) = AtPromises i"
      and "fst (externalProps (h_generator h)) = fst sent"
      and "reaction_next chemical (generator (h_generator h)) (c_props (h_generator h))
             = (Yield settled, g)"
      and "(key, Error e) \<in> set settled"
      and "\<forall>ev \<in> set evs. \<not> isDepsChanged ev"
  shows "emitted (hook_step chemical h Resume) = emitted h @ [(error, settled)]
       \<and> h_pos (hook_step chemical h Resume) = Waiting False
       \<and> hook_run chemical (hook_step chemical h Resume) evs = hook_step chemical h Resume
       \<and> emitted (hook_run chemical (hook_step chemical h Resume) evs) = emitted h @ [(error, settled)]
       \<and> invoked (generator (h_generator (hook_run chemical (hook_step chemical h Resume) evs)))
           = invoked g"
proof -
  let ?h' = "hook_step chemical h Resume"
  note cn = resolvedPhase_reports_error[OF assms(2,3,4,5)]
  have h': "?h' = h\<lparr>h_generator := (h_generator h)\<lparr>generator := g, c_props := settled,
                                      state := error, c_pos := AtError i\<rparr>,
                    emitted := emitted h @ [(error, settled)], h_pos := Waiting False\<rparr>"
    using assms(1) cn by (simp add: pulled_def)
  then have w: "h_pos ?h' = Waiting False" and em: "emitted ?h' = emitted h @ [(error, settled)]"
    and inv: "invoked (generator (h_generator ?h')) = invoked g" by simp_all
  from waiting_without_timer_run[OF w assms(6)] have "hook_run chemical ?h' evs = ?h'" .
  with w em inv show ?thesis by simp
qed

theorem error_halts_until_inputs_change_witness:
  "h_pos pullingB = Pulling (1, [(''k'', Number 1)])
   \<and> c_pos (h_generator pullingB) = AtPromises 0
   \<and> fst (externalProps (h_generator pullingB)) = fst (1 :: nat, [(''k'', Number 1)])
   \<and> reaction_next scenarioB (generator (h_generator pullingB)) (c_props (h_generator pullingB)) =
       (Yield [(''k'', Number 1), (''a'', Error ''boom'')],
        \<lparr>r_props = [(''k'', Number 1), (''a'', Error ''boom'')],
         r_nextProps = [(''k'', Number 1)], r_pos = AtSettled 0 True,
         invoked = [(0, ''a'', [(''k'', Number 1)])]\<rparr>)
   \<and> (''a'', Error ''boom'') \<in> set [(''k'', Number 1), (''a'', Error ''boom'')]
   \<and> \<not> isDepsChanged TimerFired \<and> \<not> isDepsChanged Resume
   \<and> emitted pullingB = []
   \<and> emitted (hook_run scenarioB (hook_step scenarioB pullingB Resume)
                [TimerFired, Resume, Resume, TimerFired])
       = emitted pullingB @ [(error, [(''k'', Number 1), (''a'', Error ''boom'')])]
   \<and> h_pos (hook_step scenarioB pullingB Resume) = Waiting False
   \<and> hook_run scenarioB (hook_step scenarioB pullingB Resume) [TimerFired, Resume, Resume, TimerFired]
       = hook_step scenarioB pullingB Resume
   \<and> invoked (generator (h_generator (hook_run scenarioB (hook_step scenarioB pullingB Resume)
                                         [TimerFired, Resume, Resume, TimerFired])))
       = invoked \<lparr>r_props = [(''k'', Number 1), (''a'', Error ''boom'')],
                  r_nextProps = [(''k'', Number 1)], r_pos = AtSettled 0 True,
                  invoked = [(0, ''a'', [(''k'', Number 1)])]\<rparr>"
proof -
  let ?g = "\<lparr>r_props = [(''k'', Number 1), (''a'', Error ''boom'')],
         r_nextProps = [(''k'', Number 1)], r_pos = AtSettled 0 True,
         invoked = [(0, ''a'', [(''k'', Number 1)])]\<rparr>"
  have h1: "h_pos pullingB = Pulling (1, [(''k'', Number 1)])" by code_simp
  have h2: "c_pos (h_generator pullingB) = AtPromises 0" by code_simp
  have h3: "fst (externalProps (h_generator pullingB)) = fst (1 :: nat, [(''k'', Number 1)])"
    by code_simp
  have h4: "reaction_next scenarioB (generator (h_generator pullingB)) (c_props (h_generator pullingB)) =
       (Yield [(''k'', Number 1), (''a'', Error ''boom'')], ?g)" by code_simp
  have h5: "(''a'', Error ''boom'') \<in> set [(''k'', Number 1), (''a'', Error ''boom'')]" by simp
  have h6: "\<forall>ev \<in> set [TimerFired, Resume, Resume, TimerFired]. \<not> isDepsChanged ev" by simp
  have h7: "emitted pullingB = []" by code_simp
  have h8: "\<not> isDepsChanged TimerFired" "\<not> isDepsChanged Resume" by simp_all
  note t = error_halts_until_inputs_change[OF h1 h2 h3 h4 h5 h6]
  from t have t1: "emitted (hook_run scenarioB (hook_step scenarioB pullingB Resume)
                [TimerFired, Resume, Resume, TimerFired])
       = emitted pullingB @ [(error, [(''k'', Number 1), (''a'', Error ''boom'')])]" by blast
  from t have t2: "h_pos (hook_step scenarioB pullingB Resume) = Waiting False" by blast
  from t have t3: "hook_run scenarioB (hook_step scenarioB pullingB Resume)
        [TimerFired, Resume, Resume, TimerFired] = hook_step scenarioB pullingB Resume" by blast
  from t have t4: "invoked (generator (h_generator (hook_run scenarioB
        (hook_step scenarioB pullingB Resume) [TimerFired, Resume, Resume, TimerFired])))
       = invoked ?g" by blast
  show ?thesis
    apply (intro conjI)
    apply (rule h1, rule h2, rule h3, rule h4, rule h5, rule h8(1), rule h8(2), rule h7)
    apply (rule t1, rule t2, rule t3, rule t4)
    done
qed

section \<open>The pass after a finished pass\<close>

text \<open>
  C7. The run of the test "should restart from the beginning" of catalyze.test.ts: one
  stage, the same inputs at every advance. \<^verbatim>\<open>reaction\<close> yields \<open>2N + 1\<close> times for each of
  its passes (once at the top of its loop, line 94), \<^verbatim>\<open>catalyze\<close> advances it \<open>2N\<close> times
  for each of its own. After the finished observation the cell \<open>first\<close> is observed
  resolved twice more, then as a promise with its previous value under status finished
  and again under status executing, and only then resolved.
\<close>

theorem refresh_after_finished_trace:
  "fst (catalyze_run restartTest
          (snd (catalyze_next restartTest (catalyze restartTest) (0, [])))
          (replicate 7 (1, [(''projectId'', Str ''hi'')]))) =
     [Yield (executing, [(''projectId'', Str ''hi''),
                         (''first'', Promise (Fulfilled (Str ''first'')) False False Undefined)]),
      Yield (finished, [(''projectId'', Str ''hi''), (''first'', Str ''first'')]),
      Yield (executing, [(''projectId'', Str ''hi''), (''first'', Str ''first'')]),
      Yield (executing, [(''projectId'', Str ''hi''), (''first'', Str ''first'')]),
      Yield (finished, [(''projectId'', Str ''hi''),
                        (''first'', Promise (Fulfilled (Str ''first'')) False False (Str ''first''))]),
      Yield (executing, [(''projectId'', Str ''hi''),
                         (''first'', Promise (Fulfilled (Str ''first'')) False False (Str ''first''))]),
      Yield (executing, [(''projectId'', Str ''hi''), (''first'', Str ''first'')])]"
  by code_simp

section \<open>A key whose inputs are absent\<close>




section \<open>The helper queries are not mutually exclusive\<close>

text \<open>
  C9. Whenever \<open>isRefreshing a\<close> is truthy, \<open>isResolved a\<close> and \<open>isPending a\<close> are both
  true: a refreshing cell is classified as resolved and as pending at once.
\<close>

theorem refreshing_is_resolved_and_pending:
  "truthy (isRefreshing a) \<Longrightarrow> isResolved a \<and> isPending a"
  by (cases a) (auto simp: isRefreshing_def isResolved_def)

theorem refreshing_is_resolved_and_pending_witness:
  "truthy (isRefreshing (Promise (Fulfilled (Str ''new'')) False False (Str ''old'')))
   \<and> isResolved (Promise (Fulfilled (Str ''new'')) False False (Str ''old''))
   \<and> isPending (Promise (Fulfilled (Str ''new'')) False False (Str ''old''))"
  using refreshing_is_resolved_and_pending
    [of "Promise (Fulfilled (Str ''new'')) False False (Str ''old'')"]
  by (simp add: isRefreshing_def)

section \<open>An Error among the caller's inputs\<close>

text \<open>
  C10 (as amended). \<^verbatim>\<open>hasErrors\<close> counts the Error values of the whole bag, whatever
  key they are under. When a pass begins on an executor whose own bag does not hold a
  key, and the inputs hold an Error under that key, then (unless the dispatch of the
  first stage throws) the advance that settles the first stage yields status error with
  the Error still in the bag, and both generators are left to break out of their loops:
  the pass halts after its first stage. Nothing is assumed of the atoms; they may all
  succeed.
\<close>

theorem error_input_reports_error:
  assumes "c_pos c = AtStart" and "r_pos (generator c) = AtTop"
      and "map_of (r_props (generator c)) key = None"
      and "chemicals \<noteq> []"
      and "distinct (map fst (snd x))" and "map_of (snd x) key = Some (Error e)"
      and "catalyze_next chemicals c x = (Yield o1, c1)"
      and "fst x' = fst x"
  shows "\<exists>settled c2. catalyze_next chemicals c1 x' = (Yield (error, settled), c2)
       \<and> map_of settled key = Some (Error e) \<and> 0 < hasErrors settled
       \<and> c_pos c2 = AtError 0 \<and> r_pos (generator c2) = AtSettled 0 True"
proof -
  let ?sent = "spread (c_props c) (snd x)"
  let ?s = "(generator c)\<lparr>r_nextProps := ?sent\<rparr>"
  have sent: "map_of ?sent key = Some (Error e)"
    using assms(5,6) by (simp add: spread_def map_of_assign_in)
  have "key \<notin> fst ` set (r_props (generator c))" using assms(3) by (simp add: map_of_eq_None_iff)
  then have "map_of (assign (copy ?sent) (r_props (generator c))) key = Some (Error e)"
    using sent by (simp add: map_of_assign_notin copy_spread)
  then have m: "map_of (mergedProps ?s) key = Some (Error e)"
    by (simp add: mergedProps_def spread_def[of ?sent] copy_def)
  have cn: "catalyze_next chemicals c x = promisePhase chemicals 0 (c\<lparr>externalProps := x\<rparr>)"
    using assms(1,4) by (simp add: catalyze_next_def)
  have rn: "reaction_next chemicals (generator c) ?sent = dispatch chemicals 0 ?s"
    using assms(2,4) by (simp add: reaction_next_def)
  obtain r g1 where d: "dispatch chemicals 0 ?s = (r, g1)" by (cases "dispatch chemicals 0 ?s")
  from assms(7) cn rn d obtain np where r: "r = Yield np" and o1: "o1 = (state c, np)"
    and c1: "c1 = c\<lparr>externalProps := x, generator := g1, c_props := np, c_pos := AtPromises 0\<rparr>"
    by (cases r) (auto simp: promisePhase_def)
  from dispatch_Yield[OF d[unfolded r]]
  obtain calls where ex: "executeGroup (chemicals ! 0) (mergedProps ?s) = Inr (np, calls)"
    and g1: "g1 = ?s\<lparr>r_pos := AtInFlight 0 np, invoked := invoked ?s @ map (\<lambda>c. (0, c)) calls\<rparr>"
    by blast
  have npk: "map_of np key = Some (Error e)"
    using executeGroup_keeps_error[OF ex mergedProps_distinct m] by simp
  have npd: "distinct (map fst np)" using ex by (rule executeGroup_distinct)
  let ?b = "map (\<lambda>(k, v). (k, settleValue v)) np"
  have pos: "r_pos g1 = AtInFlight 0 np" using g1 by simp
  have bk: "map_of ?b key = Some (Error e)"
    using npk by (simp add: map_of_settled) (simp add: settleValue_def)
  from npk have mem: "(key, Error e) \<in> set np" by (rule map_of_SomeD)
  then have flag: "\<exists>(k, v) \<in> set np. isError (settleValue v)"
    by (force simp: settleValue_def)
  have st: "reaction_next chemicals g1 np = (Yield ?b, g1\<lparr>r_props := ?b, r_pos := AtSettled 0 True\<rparr>)"
    using reaction_next_settle[OF pos, of chemicals np] npd flag by (simp add: copy_distinct)
  from mem have "(key, Error e) \<in> set ?b" by (force simp: settleValue_def)
  then have he: "0 < hasErrors ?b" by (rule hasErrors_pos)
  have "catalyze_next chemicals c1 x' = resolvedPhase chemicals 0 c1"
    using c1 assms(8) by (simp add: catalyze_next_def shouldAbort_def)
  also have "\<dots> = (Yield (error, ?b),
      c1\<lparr>generator := g1\<lparr>r_props := ?b, r_pos := AtSettled 0 True\<rparr>, c_props := ?b,
         state := error, c_pos := AtError 0\<rparr>)"
    using st he c1 by (simp add: resolvedPhase_def Let_def)
  finally show ?thesis using bk he by auto
qed

theorem error_input_reports_error_witness:
  "c_pos startedA = AtStart \<and> r_pos (generator startedA) = AtTop
   \<and> map_of (r_props (generator startedA)) ''k'' = None
   \<and> scenarioA \<noteq> []
   \<and> distinct (map fst (snd (1 :: nat, [(''k'', Error ''bad'')])))
   \<and> map_of (snd (1 :: nat, [(''k'', Error ''bad'')])) ''k'' = Some (Error ''bad'')
   \<and> fst (catalyze_run scenarioA startedA [(1, [(''k'', Error ''bad'')]), (1, [(''k'', Error ''bad'')])]) =
       [Yield (executing, [(''k'', Error ''bad''),
                           (''a'', Promise (Fulfilled (Str ''x'')) False False Undefined)]),
        Yield (error, [(''k'', Error ''bad''), (''a'', Str ''x'')])]
   \<and> hasErrors [(''k'', Error ''bad''), (''a'', Str ''x'')] = 1"
proof -
  let ?x = "(1 :: nat, [(''k'', Error ''bad'')])"
  let ?c1 = "snd (catalyze_next scenarioA startedA ?x)"
  have h1: "c_pos startedA = AtStart" by code_simp
  have h2: "r_pos (generator startedA) = AtTop" by code_simp
  have h3: "map_of (r_props (generator startedA)) ''k'' = None" by code_simp
  have h4: "scenarioA \<noteq> []" by (simp add: scenarioA_def)
  have h5: "distinct (map fst (snd ?x))" by simp
  have h6: "map_of (snd ?x) ''k'' = Some (Error ''bad'')" by simp
  have h7: "catalyze_next scenarioA startedA ?x =
      (Yield (executing, [(''k'', Error ''bad''),
                           (''a'', Promise (Fulfilled (Str ''x'')) False False Undefined)]), ?c1)"
    by code_simp
  have h8: "fst ?x = fst ?x" by simp
  have h9: "fst (catalyze_run scenarioA startedA [?x, ?x]) =
       [Yield (executing, [(''k'', Error ''bad''),
                           (''a'', Promise (Fulfilled (Str ''x'')) False False Undefined)]),
        Yield (error, [(''k'', Error ''bad''), (''a'', Str ''x'')])]"
    by code_simp
  have h10: "hasErrors [(''k'', Error ''bad''), (''a'', Str ''x'')] = 1" by code_simp
  from error_input_reports_error[OF h1 h2 h3 h4 h5 h6 h7 h8] h1 h2 h3 h4 h5 h6 h9 h10
  show ?thesis by simp
qed


text \<open>
  Against C10 as stated: after a first pass with \<open>k = 1\<close> the executor's own bag holds
  \<open>k\<close>; the same input object then carries an Error under \<open>k\<close> for six advances, and no
  observation has status error: every bag still shows \<open>k = 1\<close>.
\<close>

theorem shadowed_error_input_counterexample:
  "fst (catalyze_run scenarioA startedA
          ([(1, [(''k'', Number 1)]), (1, [(''k'', Number 1)])]
           @ replicate 6 (1, [(''k'', Error ''bad'')]))) =
     [Yield (executing, [(''k'', Number 1),
                         (''a'', Promise (Fulfilled (Str ''x'')) False False Undefined)]),
      Yield (finished, [(''k'', Number 1), (''a'', Str ''x'')]),
      Yield (executing, [(''k'', Number 1), (''a'', Str ''x'')]),
      Yield (executing, [(''k'', Number 1), (''a'', Str ''x'')]),
      Yield (finished, [(''k'', Number 1),
                        (''a'', Promise (Fulfilled (Str ''x'')) False False (Str ''x''))]),
      Yield (executing, [(''k'', Number 1),
                         (''a'', Promise (Fulfilled (Str ''x'')) False False (Str ''x''))]),
      Yield (executing, [(''k'', Number 1), (''a'', Str ''x'')]),
      Yield (finished, [(''k'', Number 1), (''a'', Str ''x'')])]"
  by code_simp

end
